theory Spec2Isabelle
  imports Main "HOL-Library.Word" "HOL-Library.While_Combinator" "HOL-Library.Multiset"
begin

unbundle bit_operations_syntax

section \<open>Errors\<close>

text \<open>
  The C++ code fails in three ways: \<^verbatim>\<open>assert\<close>/\<^verbatim>\<open>passert\<close> (an abort),
  \<^verbatim>\<open>throw std::runtime_error(msg)\<close>, and \<^verbatim>\<open>compiler_error(pstring, msg)\<close>,
  which throws a diagnostic carrying a source position. Each is a value here, and so
  are the dereference of a null node pointer and, for the one recursion of the code
  that need not end, running out of the fuel the model gives it.
\<close>

record pstring_t =
  offset :: nat
  psize :: nat
  file_i :: nat

datatype error =
    Assertion_failed
  | Runtime_error string
  | Compiler_error pstring_t string
  | Null_pointer
  | Out_of_fuel

section \<open>Types (type.cpp)\<close>

text \<open>
  The enumeration \<^verbatim>\<open>type_name_t\<close>; its members are the ones \<^verbatim>\<open>to_string(type_t)\<close>
  (type.cpp:189) switches over.
\<close>

datatype type_name =
    TYPE_VOID | TYPE_ARRAY_THUNK | TYPE_STRUCT_THUNK | TYPE_BOOL | TYPE_INT | TYPE_REAL
  | TYPE_F1 | TYPE_F2 | TYPE_F3
  | TYPE_U10 | TYPE_U20 | TYPE_U30 | TYPE_U11 | TYPE_U21 | TYPE_U31
  | TYPE_U12 | TYPE_U22 | TYPE_U32 | TYPE_U13 | TYPE_U23 | TYPE_U33
  | TYPE_S10 | TYPE_S20 | TYPE_S30 | TYPE_S11 | TYPE_S21 | TYPE_S31
  | TYPE_S12 | TYPE_S22 | TYPE_S32 | TYPE_S13 | TYPE_S23 | TYPE_S33
  | TYPE_ARRAY | TYPE_STRUCT | TYPE_BUFFER | TYPE_BANKED_PTR | TYPE_PTR | TYPE_FN

type_synonym group_ht = "32 word"
type_synonym size_t = "64 word"

text \<open>
  What the code reads of a \<^verbatim>\<open>struct_t\<close> and of a \<^verbatim>\<open>global_t\<close>: the result of
  \<^verbatim>\<open>has_array_member()\<close>, the global's name and class, and the struct a global
  implements. The only global class type.cpp names is \<^verbatim>\<open>GLOBAL_STRUCT\<close>.
\<close>

record struct_t =
  struct_name :: string
  has_array_member :: bool

datatype global_class_t = GLOBAL_STRUCT | GLOBAL_OTHER nat

record global_t =
  global_name :: string
  gclass :: global_class_t
  impl_struct :: struct_t

text \<open>
  A \<^verbatim>\<open>type_t\<close> is a name, a size and an untyped tail pointer. What the pointer
  refers to depends on the constructor that built the value (type.cpp:105-146):
  an interned range of types (\<^verbatim>\<open>array\<close>, \<^verbatim>\<open>fn\<close>), an interned range of
  groups (\<^verbatim>\<open>ptr\<close>), an \<^verbatim>\<open>array_thunk_t\<close> (position, element type, size
  expression), a global (\<^verbatim>\<open>struct_thunk\<close>) or a struct (\<^verbatim>\<open>struct_\<close>).
  The size expression of a thunk is a pointer to tokens; here it is an opaque number.
\<close>

datatype type_t = Type_t (m_name: type_name) (m_size: nat) (m_tail: tail_t)
and tail_t =
    No_tail
  | Type_tail "type_t list"
  | Group_tail "group_ht list"
  | Thunk_tail pstring_t type_t nat
  | Global_tail global_t
  | Struct_tail struct_t

text \<open>
  The declarations of type_name.hpp and type.hpp that type.cpp uses and that are not
  among the sources are parameters: which names carry a type tail or a group tail, the
  number of tail elements as a function of name and size, the arithmetic
  classification of names, the numeric value of a name, and \<^verbatim>\<open>rh::hash_combine\<close>.
\<close>

record type_decls =
  has_type_tail :: "type_name \<Rightarrow> bool"
  has_group_tail :: "type_name \<Rightarrow> bool"
  type_tail_size :: "type_name \<Rightarrow> nat \<Rightarrow> nat"
  group_tail_size :: "type_name \<Rightarrow> nat \<Rightarrow> nat"
  is_arithmetic :: "type_name \<Rightarrow> bool"
  frac_bytes :: "type_name \<Rightarrow> nat"
  is_arithmetic_subset :: "type_name \<Rightarrow> type_name \<Rightarrow> bool"
  name_value :: "type_name \<Rightarrow> size_t"
  hash_combine :: "size_t \<Rightarrow> size_t \<Rightarrow> size_t"

text \<open>The pointer names, as \<^verbatim>\<open>type_t::ptr\<close> (type.cpp:128) builds them.\<close>

definition is_ptr :: "type_name \<Rightarrow> bool" where
  "is_ptr n = (n = TYPE_PTR \<or> n = TYPE_BANKED_PTR)"

definition is_thunk :: "type_name \<Rightarrow> bool" where
  "is_thunk n = (n = TYPE_ARRAY_THUNK \<or> n = TYPE_STRUCT_THUNK)"

text \<open>\<^verbatim>\<open>types()\<close> and \<^verbatim>\<open>groups()\<close>: the tail read as a range of types or of groups.\<close>

fun tail_types :: "tail_t \<Rightarrow> type_t list" where
  "tail_types (Type_tail ts) = ts"
| "tail_types _ = []"

fun tail_groups :: "tail_t \<Rightarrow> group_ht list" where
  "tail_groups (Group_tail gs) = gs"
| "tail_groups _ = []"

definition types :: "type_t \<Rightarrow> type_t list" where
  "types t = tail_types (m_tail t)"

definition groups :: "type_t \<Rightarrow> group_ht list" where
  "groups t = tail_groups (m_tail t)"

text \<open>
  \<^verbatim>\<open>std::equal(first1, first1 + n, first2)\<close> on group handles. The ranges the
  constructors intern hold exactly \<open>n\<close> elements; a range that ends early is
  outside what C++ defines and compares unequal here.
\<close>

fun std_equal :: "nat \<Rightarrow> 'a list \<Rightarrow> 'a list \<Rightarrow> bool" where
  "std_equal 0 xs ys = True"
| "std_equal (Suc k) (x # xs) (y # ys) = (x = y \<and> std_equal k xs ys)"
| "std_equal (Suc k) _ _ = False"

text \<open>
  \<^verbatim>\<open>type_t::operator==\<close> (type.cpp:90). On a type tail \<^verbatim>\<open>std::equal\<close> compares
  the elements with \<^verbatim>\<open>operator==\<close> again, hence the mutual recursion.
\<close>

fun type_eq :: "type_decls \<Rightarrow> type_t \<Rightarrow> type_t \<Rightarrow> bool"
and std_equal_types :: "type_decls \<Rightarrow> nat \<Rightarrow> type_t list \<Rightarrow> type_t list \<Rightarrow> bool"
where
  "type_eq D (Type_t n s tp) b =
     (if n \<noteq> m_name b \<or> s \<noteq> m_size b then False
      else if has_type_tail D n then
        (case tp of
           Type_tail ts \<Rightarrow> std_equal_types D (type_tail_size D n s) ts (types b)
         | _ \<Rightarrow> std_equal_types D (type_tail_size D n s) [] (types b))
      else if has_group_tail D n then
        std_equal (group_tail_size D n s) (tail_groups tp) (groups b)
      else True)"
| "std_equal_types D 0 xs ys = True"
| "std_equal_types D (Suc k) (x # xs) (y # ys) = (type_eq D x y \<and> std_equal_types D k xs ys)"
| "std_equal_types D (Suc k) _ _ = False"

text \<open>
  \<^verbatim>\<open>type_t::hash\<close> (type.cpp:174): the name and the size, then the hash of every
  tail element in index order. The loops over \<open>i < type_tail_size()\<close> and
  \<open>i < group_tail_size()\<close> are \<open>hash_types\<close> and \<open>hash_groups\<close>.
\<close>

fun hash_groups :: "type_decls \<Rightarrow> nat \<Rightarrow> group_ht list \<Rightarrow> size_t \<Rightarrow> size_t" where
  "hash_groups D 0 gs h = h"
| "hash_groups D (Suc k) (g # gs) h = hash_groups D k gs (hash_combine D h (ucast g))"
| "hash_groups D (Suc k) [] h = h"

fun hash :: "type_decls \<Rightarrow> type_t \<Rightarrow> size_t"
and hash_types :: "type_decls \<Rightarrow> nat \<Rightarrow> type_t list \<Rightarrow> size_t \<Rightarrow> size_t"
where
  "hash D (Type_t n s tp) =
     (let h = hash_combine D (name_value D n) (of_nat s)
      in if has_type_tail D n then
           (case tp of
              Type_tail ts \<Rightarrow> hash_types D (type_tail_size D n s) ts h
            | _ \<Rightarrow> h)
         else if has_group_tail D n then
           hash_groups D (group_tail_size D n s) (tail_groups tp) h
         else h)"
| "hash_types D 0 ts h = h"
| "hash_types D (Suc k) (t # ts) h = hash_types D k ts (hash_combine D h (hash D t))"
| "hash_types D (Suc k) [] h = h"


subsection \<open>Casts\<close>

datatype cast_result_t =
    CAST_FAIL | CAST_NOP | CAST_PROMOTE | CAST_TRUNCATE | CAST_BOOLIFY
  | CAST_ROUND_REAL | CAST_CONVERT_INT

text \<open>
  \<^verbatim>\<open>can_cast\<close> (type.cpp:270). The assertion on buffers is the first branch; the
  comparison \<^verbatim>\<open>to == TYPE_BOOL\<close> converts the name to a \<^verbatim>\<open>type_t\<close> of size 0
  with a null tail. The commented-out blocks of the source are not code.
\<close>

definition can_cast :: "type_decls \<Rightarrow> type_t \<Rightarrow> type_t \<Rightarrow> bool \<Rightarrow> error + cast_result_t" where
  "can_cast D from to implicit =
     (if \<not> (m_name from \<noteq> TYPE_BUFFER \<and> m_name to \<noteq> TYPE_BUFFER) then Inl Assertion_failed
      else if type_eq D from to then Inr CAST_NOP
      else if is_ptr (m_name from) \<or> is_ptr (m_name to) then Inr CAST_FAIL
      else if is_arithmetic D (m_name from) \<and> type_eq D to (Type_t TYPE_BOOL 0 No_tail)
        then Inr CAST_BOOLIFY
      else if m_name from = TYPE_REAL \<and> implicit \<and> frac_bytes D (m_name to) = 0
        then Inr CAST_FAIL
      else if m_name from = TYPE_REAL \<and> is_arithmetic D (m_name to)
        then Inr CAST_ROUND_REAL
      else if m_name from = TYPE_INT \<and> is_arithmetic D (m_name to)
        then Inr CAST_CONVERT_INT
      else if is_arithmetic D (m_name from) \<and> is_arithmetic D (m_name to) then
        (if is_arithmetic_subset D (m_name from) (m_name to) then Inr CAST_PROMOTE
         else if implicit then Inr CAST_FAIL else Inr CAST_TRUNCATE)
      else Inr CAST_FAIL)"

subsection \<open>Dethunking\<close>

text \<open>
  \<^verbatim>\<open>has_array\<close> (type.cpp:442), with its assertion; \<^verbatim>\<open>struct_()\<close> reads the tail
  as a struct.
\<close>

definition has_array :: "type_t \<Rightarrow> error + bool" where
  "has_array t =
     (if \<not> (m_name t \<noteq> TYPE_STRUCT_THUNK) then Inl Assertion_failed
      else if m_name t = TYPE_STRUCT then
        (case m_tail t of Struct_tail s \<Rightarrow> Inr (has_array_member s) | _ \<Rightarrow> Inl Assertion_failed)
      else if m_name t = TYPE_ARRAY_THUNK \<or> m_name t = TYPE_ARRAY then Inr True
      else Inr False)"

text \<open>
  \<^verbatim>\<open>tails_manager_t::get\<close> (type.cpp:46) on the thread's \<^verbatim>\<open>type_tails\<close>:
  the interned ranges in insertion order, each with the hash and the 16-bit size the
  map stores for it. A range is looked up by its hash and by the predicate
  \<^verbatim>\<open>elem.size == size && std::equal(begin, end, elem.tail)\<close>, which compares the
  elements with \<^verbatim>\<open>operator==\<close>; a hit returns the range stored earlier, a miss
  stores a copy of the range and returns that. The empty range is the null pointer.
  \<^verbatim>\<open>std::hash<type_t>\<close> is taken to be \<^verbatim>\<open>type_t::hash\<close>.
\<close>

type_synonym type_tails = "(size_t \<times> nat \<times> type_t list) list"

definition range_hash :: "type_decls \<Rightarrow> type_t list \<Rightarrow> size_t" where
  "range_hash D r = fold (\<lambda>t h. hash_combine D h (hash D t)) r (of_nat (length r))"

definition tails_get :: "type_decls \<Rightarrow> type_t list \<Rightarrow> type_tails \<Rightarrow> tail_t \<times> type_tails" where
  "tails_get D r tails =
     (if length r = 0 then (No_tail, tails)
      else case find (\<lambda>elem. fst elem = range_hash D r
                           \<and> fst (snd elem) = length r
                           \<and> std_equal_types D (length r) r (snd (snd elem))) tails of
             Some elem \<Rightarrow> (Type_tail (snd (snd elem)), tails)
           | None \<Rightarrow> (Type_tail r, tails @ [(range_hash D r, length r mod 65536, r)]))"

text \<open>
  \<^verbatim>\<open>type_t::array\<close> (type.cpp:110) with its assertion, \<^verbatim>\<open>type_t::fn\<close>
  (type.cpp:133), \<^verbatim>\<open>type_t::struct_thunk\<close> (type.cpp:138) and
  \<^verbatim>\<open>type_t::struct_\<close> (type.cpp:143, here \<open>struct_type\<close>). The first two
  intern their tail and return the type with the new state of \<^verbatim>\<open>type_tails\<close>.
\<close>

definition array :: "type_decls \<Rightarrow> type_t \<Rightarrow> nat \<Rightarrow> type_tails \<Rightarrow> error + (type_t \<times> type_tails)" where
  "array D elem_type sz tails =
     (case (if is_thunk (m_name elem_type) then Inr True
            else case has_array elem_type of Inl e \<Rightarrow> Inl e | Inr b \<Rightarrow> Inr (\<not> b)) of
        Inl e \<Rightarrow> Inl e
      | Inr False \<Rightarrow> Inl Assertion_failed
      | Inr True \<Rightarrow>
          (case tails_get D [elem_type] tails of
             (tail, tails') \<Rightarrow> Inr (Type_t TYPE_ARRAY sz tail, tails')))"

definition fn :: "type_decls \<Rightarrow> type_t list \<Rightarrow> type_tails \<Rightarrow> type_t \<times> type_tails" where
  "fn D args tails =
     (case tails_get D args tails of (tail, tails') \<Rightarrow> (Type_t TYPE_FN (length args) tail, tails'))"

definition struct_thunk :: "global_t \<Rightarrow> type_t" where
  "struct_thunk g = Type_t TYPE_STRUCT_THUNK 0 (Global_tail g)"

definition struct_type :: "struct_t \<Rightarrow> type_t" where
  "struct_type s = Type_t TYPE_STRUCT 0 (Struct_tail s)"

text \<open>
  The compiler phase is global state and the evaluator is another module. What
  \<^verbatim>\<open>dethunkify\<close> takes from them: the current phase, and the unsigned 32-bit value
  \<^verbatim>\<open>std::get<ssa_value_t>(interpret_expr(pstring, expr, TYPE_U, env).value[0]).whole()\<close>
  of a size expression, here the function \<open>interpret_size\<close> of the environment.
\<close>

datatype compiler_phase_t = PHASE_COMPILE | PHASE_OTHER nat

record eval_t =
  compiler_phase :: compiler_phase_t
  interpret_size :: "pstring_t \<Rightarrow> nat \<Rightarrow> 32 word"

text \<open>
  \<^verbatim>\<open>dethunkify\<close> (type.cpp:455), on the thread's \<^verbatim>\<open>type_tails\<close>. The
  argument \<^verbatim>\<open>src_type_t\<close> is the pair of a type and a position.
  \<open>dethunkify_args\<close> is the loop over \<open>i < t.size()\<close> of the \<^verbatim>\<open>TYPE_FN\<close>
  case, reading \<^verbatim>\<open>t.type(i)\<close>; an exception leaves the loop.
\<close>

fun dethunkify :: "type_decls \<Rightarrow> eval_t \<Rightarrow> type_tails \<Rightarrow> type_t \<Rightarrow> pstring_t \<Rightarrow> error + (type_t \<times> type_tails)"
and dethunkify_args :: "type_decls \<Rightarrow> eval_t \<Rightarrow> type_tails \<Rightarrow> nat \<Rightarrow> type_t list \<Rightarrow> pstring_t \<Rightarrow> error + (type_t list \<times> type_tails)"
where
  "dethunkify D env tails (Type_t n s tp) pstring =
     (if compiler_phase env \<noteq> PHASE_COMPILE then Inl Assertion_failed
      else if n = TYPE_STRUCT_THUNK then
        (case tp of
           Global_tail g \<Rightarrow>
             if gclass g \<noteq> GLOBAL_STRUCT
             then Inl (Runtime_error (global_name g @ '': Expected struct type.''))
             else Inr (struct_type (impl_struct g), tails)
         | _ \<Rightarrow> Inl Assertion_failed)
      else if n = TYPE_ARRAY_THUNK then
        (case tp of
           Thunk_tail thunk_pstring thunk_elem_type thunk_expr \<Rightarrow>
             (let sz = interpret_size env thunk_pstring thunk_expr
              in case has_array thunk_elem_type of
                   Inl e \<Rightarrow> Inl e
                 | Inr True \<Rightarrow>
                     Inl (Compiler_error thunk_pstring ''Arrays cannot be multidimensional.'')
                 | Inr False \<Rightarrow>
                     if sz \<le> 0 \<or> sz > 256
                     then Inl (Compiler_error thunk_pstring ''Invalid array size.'')
                     else array D thunk_elem_type (unat sz) tails)
         | _ \<Rightarrow> Inl Assertion_failed)
      else if n = TYPE_ARRAY then
        (case tp of
           Type_tail (elem_type # _) \<Rightarrow>
             (case dethunkify D env tails elem_type pstring of
                Inl e \<Rightarrow> Inl e
              | Inr (elem, tails1) \<Rightarrow>
                  (case has_array elem of
                     Inl e \<Rightarrow> Inl e
                   | Inr True \<Rightarrow>
                       Inl (Compiler_error pstring ''Arrays cannot be multi-dimensional.'')
                   | Inr False \<Rightarrow> array D elem s tails1))
         | _ \<Rightarrow> Inl Assertion_failed)
      else if n = TYPE_FN then
        (case tp of
           Type_tail ts \<Rightarrow>
             (case dethunkify_args D env tails s ts pstring of
                Inl e \<Rightarrow> Inl e
              | Inr (args, tails1) \<Rightarrow> Inr (fn D args tails1))
         | _ \<Rightarrow>
             (case dethunkify_args D env tails s [] pstring of
                Inl e \<Rightarrow> Inl e
              | Inr (args, tails1) \<Rightarrow> Inr (fn D args tails1)))
      else Inr (Type_t n s tp, tails))"
| "dethunkify_args D env tails 0 ts pstring = Inr ([], tails)"
| "dethunkify_args D env tails (Suc k) (t # ts) pstring =
     (case dethunkify D env tails t pstring of
        Inl e \<Rightarrow> Inl e
      | Inr (a, tails1) \<Rightarrow>
          (case dethunkify_args D env tails1 k ts pstring of
             Inl e \<Rightarrow> Inl e
           | Inr (as, tails2) \<Rightarrow> Inr (a # as, tails2)))"
| "dethunkify_args D env tails (Suc k) [] pstring = Inl Assertion_failed"

text \<open>An array thunk, as \<^verbatim>\<open>type_t::array_thunk\<close> (type.cpp:116) builds it.\<close>

definition array_thunk :: "pstring_t \<Rightarrow> type_t \<Rightarrow> nat \<Rightarrow> type_t" where
  "array_thunk pstring elem_type tokens = Type_t TYPE_ARRAY_THUNK 0 (Thunk_tail pstring elem_type tokens)"


section \<open>The assembly graph (asm_graph.cpp, in src/src/o_unused.cpp from line 179)\<close>

text \<open>Line numbers below are those of src/src/o_unused.cpp.\<close>

subsection \<open>Locators and instructions\<close>

text \<open>
  locator.hpp and asm.hpp are not among the sources. A locator is the record of the
  fields asm_graph.cpp reads (class, handle, data, offset, and the \<^verbatim>\<open>is\<close> tag that
  selects a pointer's low or high byte); its operations are the field updates their
  names say. The class lists the members the code names. A locator converts to
  \<^verbatim>\<open>true\<close> unless it is the empty locator.
\<close>

datatype locator_class =
    LOC_NONE | LOC_FN | LOC_ARG | LOC_RETURN | LOC_GMEMBER | LOC_CFG_LABEL
  | LOC_MINOR_LABEL | LOC_CONST_BYTE | LOC_SWITCH_LO_TABLE | LOC_SWITCH_HI_TABLE
  | LOC_OTHER nat

datatype is_t = IS_DEREF | IS_PTR | IS_PTR_HI

type_synonym cfg_ht = nat

record locator_t =
  lclass :: locator_class
  handle :: nat
  data :: nat
  loc_offset :: int
  loc_is :: is_t

definition loc_none :: locator_t where
  "loc_none = \<lparr> lclass = LOC_NONE, handle = 0, data = 0, loc_offset = 0, loc_is = IS_DEREF \<rparr>"

definition loc_bool :: "locator_t \<Rightarrow> bool" where
  "loc_bool l = (l \<noteq> loc_none)"

definition minor_label :: "nat \<Rightarrow> locator_t" where
  "minor_label v = \<lparr> lclass = LOC_MINOR_LABEL, handle = 0, data = v, loc_offset = 0, loc_is = IS_DEREF \<rparr>"

definition const_byte :: "nat \<Rightarrow> locator_t" where
  "const_byte v = \<lparr> lclass = LOC_CONST_BYTE, handle = 0, data = v, loc_offset = 0, loc_is = IS_DEREF \<rparr>"

definition cfg_label :: "cfg_ht \<Rightarrow> locator_t" where
  "cfg_label c = \<lparr> lclass = LOC_CFG_LABEL, handle = c, data = 0, loc_offset = 0, loc_is = IS_DEREF \<rparr>"

definition switch_lo_table :: "cfg_ht \<Rightarrow> locator_t" where
  "switch_lo_table c = \<lparr> lclass = LOC_SWITCH_LO_TABLE, handle = c, data = 0, loc_offset = 0, loc_is = IS_DEREF \<rparr>"

definition switch_hi_table :: "cfg_ht \<Rightarrow> locator_t" where
  "switch_hi_table c = \<lparr> lclass = LOC_SWITCH_HI_TABLE, handle = c, data = 0, loc_offset = 0, loc_is = IS_DEREF \<rparr>"

definition cfg_node :: "locator_t \<Rightarrow> cfg_ht" where
  "cfg_node l = handle l"

definition with_advance_offset :: "int \<Rightarrow> locator_t \<Rightarrow> locator_t" where
  "with_advance_offset k l = l\<lparr> loc_offset := loc_offset l + k \<rparr>"

definition with_is :: "is_t \<Rightarrow> locator_t \<Rightarrow> locator_t" where
  "with_is i l = l\<lparr> loc_is := i \<rparr>"

text \<open>
  The opcodes the code names, and \<open>OP n\<close> for every other member of the
  enumeration. \<open>BAD_OP\<close> is the zero value, which converts to \<^verbatim>\<open>false\<close>.
\<close>

datatype op_t =
    BAD_OP | ASM_LABEL | ASM_PRUNED | ASM_DATA | JMP_ABSOLUTE | RTS_IMPLIED | OP nat

record asm_inst_t =
  op :: op_t
  arg :: locator_t
  alt :: locator_t

definition inst_op :: "op_t \<Rightarrow> asm_inst_t" where
  "inst_op p = \<lparr> op = p, arg = loc_none, alt = loc_none \<rparr>"

definition inst_arg :: "op_t \<Rightarrow> locator_t \<Rightarrow> asm_inst_t" where
  "inst_arg p a = \<lparr> op = p, arg = a, alt = loc_none \<rparr>"

text \<open>
  The opcode tables of asm.hpp that asm_graph.cpp consults are parameters:
  the flag tests of \<^verbatim>\<open>op_flags\<close>, \<^verbatim>\<open>is_return\<close>, \<^verbatim>\<open>is_branch\<close>,
  \<^verbatim>\<open>invert_branch\<close>, \<^verbatim>\<open>tail_call_op\<close> and \<^verbatim>\<open>op_size\<close>.
\<close>

record op_decls =
  asmf_switch :: "op_t \<Rightarrow> bool"
  asmf_jump :: "op_t \<Rightarrow> bool"
  asmf_branch :: "op_t \<Rightarrow> bool"
  is_return :: "asm_inst_t \<Rightarrow> bool"
  is_branch :: "op_t \<Rightarrow> bool"
  invert_branch :: "op_t \<Rightarrow> op_t"
  tail_call_op :: "op_t \<Rightarrow> op_t"
  op_size :: "op_t \<Rightarrow> nat"

subsection \<open>Nodes and the graph\<close>

text \<open>
  A node pointer is a number; the null pointer is \<open>None\<close>. An edge is a target and
  a case value, \<open>-1\<close> unless given.
\<close>

type_synonym node_ptr = nat

record asm_edge_t =
  node :: "node_ptr option"
  case_value :: int

definition edge_to :: "node_ptr \<Rightarrow> asm_edge_t" where
  "edge_to n = \<lparr> node = Some n, case_value = -1 \<rparr>"

record asm_node_t =
  code :: "asm_inst_t list"
  output_inst :: asm_inst_t
  m_outputs :: "asm_edge_t list"
  m_inputs :: "node_ptr list"
  label :: locator_t
  cfg :: "cfg_ht option"
  original_order :: nat
  vid :: nat

definition asm_node_init :: "locator_t \<Rightarrow> nat \<Rightarrow> asm_node_t" where
  "asm_node_init l ord =
     \<lparr> code = [], output_inst = inst_op BAD_OP, m_outputs = [], m_inputs = [],
       label = l, cfg = None, original_order = ord, vid = 0 \<rparr>"

record lookup_t =
  lk_node :: node_ptr
  lk_output :: nat
  lk_label :: locator_t

text \<open>
  The graph: the node pool as a store from pointers to nodes with the next free
  pointer, the intrusive list as the list of its members, the label map, the deferred
  lookups, the order counter and the entry label.
\<close>

record asm_graph_t =
  nodes :: "node_ptr \<Rightarrow> asm_node_t"
  pool_next :: node_ptr
  node_list :: "node_ptr list"
  label_map :: "locator_t \<Rightarrow> node_ptr option"
  to_lookup :: "lookup_t list"
  next_order :: nat
  m_entry_label :: locator_t

definition upd_node :: "node_ptr \<Rightarrow> (asm_node_t \<Rightarrow> asm_node_t) \<Rightarrow> asm_graph_t \<Rightarrow> asm_graph_t" where
  "upd_node n f g = g\<lparr> nodes := (nodes g)(n := f (nodes g n)) \<rparr>"

text \<open>\<^verbatim>\<open>asm_node_t::push_output\<close> (line 199).\<close>

definition push_output :: "node_ptr \<Rightarrow> asm_edge_t \<Rightarrow> asm_graph_t \<Rightarrow> asm_graph_t" where
  "push_output this e g =
     (let g1 = upd_node this (\<lambda>nd. nd\<lparr> m_outputs := m_outputs nd @ [e] \<rparr>) g
      in case node e of
           None \<Rightarrow> g1
         | Some t \<Rightarrow> upd_node t (\<lambda>nd. nd\<lparr> m_inputs := m_inputs nd @ [this] \<rparr>) g1)"

text \<open>
  \<^verbatim>\<open>std::find\<close>, then swap with the back and \<^verbatim>\<open>pop_back\<close>: the first occurrence
  is overwritten by the last element and the vector loses its last slot.
\<close>

fun find_index_of :: "'a \<Rightarrow> 'a list \<Rightarrow> nat option" where
  "find_index_of x [] = None"
| "find_index_of x (y # ys) =
     (if x = y then Some 0 else map_option Suc (find_index_of x ys))"

definition swap_pop :: "nat \<Rightarrow> 'a list \<Rightarrow> 'a list" where
  "swap_pop i xs = butlast (xs[i := last xs])"

text \<open>\<^verbatim>\<open>asm_node_t::remove_outputs_input\<close> (line 206).\<close>

definition remove_outputs_input :: "node_ptr \<Rightarrow> nat \<Rightarrow> asm_graph_t \<Rightarrow> error + asm_graph_t" where
  "remove_outputs_input this i g =
     (if \<not> i < length (m_outputs (nodes g this)) then Inl Assertion_failed
      else case node (m_outputs (nodes g this) ! i) of
             None \<Rightarrow> Inr g
           | Some out \<Rightarrow>
               (case find_index_of this (m_inputs (nodes g out)) of
                  None \<Rightarrow> Inl Assertion_failed
                | Some k \<Rightarrow> Inr (upd_node out (\<lambda>nd. nd\<lparr> m_inputs := swap_pop k (m_inputs nd) \<rparr>) g)))"

text \<open>\<^verbatim>\<open>asm_node_t::replace_output\<close> (line 226).\<close>

definition replace_output :: "node_ptr \<Rightarrow> nat \<Rightarrow> node_ptr option \<Rightarrow> asm_graph_t \<Rightarrow> error + asm_graph_t" where
  "replace_output this i with g =
     (if \<not> i < length (m_outputs (nodes g this)) then Inl Assertion_failed
      else case remove_outputs_input this i g of
             Inl e \<Rightarrow> Inl e
           | Inr g1 \<Rightarrow>
               (let g2 = (case with of
                            None \<Rightarrow> g1
                          | Some w \<Rightarrow> upd_node w (\<lambda>nd. nd\<lparr> m_inputs := m_inputs nd @ [this] \<rparr>) g1)
                in Inr (upd_node this
                          (\<lambda>nd. nd\<lparr> m_outputs := (m_outputs nd)[i := (m_outputs nd ! i)\<lparr> node := with \<rparr>] \<rparr>)
                          g2)))"

text \<open>
  \<^verbatim>\<open>asm_graph_t::finish_appending\<close> (line 323). The message is
  \<^verbatim>\<open>fmt("Missing label % in assembly.", lookup.label)\<close>; how a locator prints is
  the parameter \<open>show_loc\<close>.
\<close>

fun finish_lookups :: "(locator_t \<Rightarrow> string) \<Rightarrow> lookup_t list \<Rightarrow> asm_graph_t \<Rightarrow> error + asm_graph_t" where
  "finish_lookups show_loc [] g = Inr g"
| "finish_lookups show_loc (lookup # rest) g =
     (case label_map g (lk_label lookup) of
        Some target \<Rightarrow>
          (case replace_output (lk_node lookup) (lk_output lookup) (Some target) g of
             Inl e \<Rightarrow> Inl e
           | Inr g' \<Rightarrow> finish_lookups show_loc rest g')
      | None \<Rightarrow>
          Inl (Runtime_error (''Missing label '' @ show_loc (lk_label lookup) @ '' in assembly.'')))"

definition finish_appending :: "(locator_t \<Rightarrow> string) \<Rightarrow> asm_graph_t \<Rightarrow> error + asm_graph_t" where
  "finish_appending show_loc g =
     (case finish_lookups show_loc (to_lookup g) g of
        Inl e \<Rightarrow> Inl e
      | Inr g' \<Rightarrow> Inr (g'\<lparr> to_lookup := [] \<rparr>))"

text \<open>
  \<^verbatim>\<open>asm_graph_t::push_back\<close> (line 335); it returns the new node's
  pointer with the graph.
\<close>

definition push_back :: "locator_t \<Rightarrow> bool \<Rightarrow> asm_graph_t \<Rightarrow> error + (node_ptr \<times> asm_graph_t)" where
  "push_back l succeed g =
     (let n = pool_next g;
          g1 = g\<lparr> nodes := (nodes g)(n := asm_node_init l (next_order g)),
                  pool_next := Suc n, next_order := Suc (next_order g) \<rparr>;
          g2 = (if succeed \<and> length (node_list g1) > 0
                then upd_node n (\<lambda>nd. nd\<lparr> cfg := cfg (nodes g1 (last (node_list g1))) \<rparr>)
                       (push_output (last (node_list g1)) (edge_to n) g1)
                else g1)
      in if loc_bool l then
           (case label_map g2 l of
              Some _ \<Rightarrow> Inl (Runtime_error ''Duplicate label.'')
            | None \<Rightarrow> Inr (n, g2\<lparr> label_map := (label_map g2)(l \<mapsto> n), node_list := node_list g2 @ [n] \<rparr>))
         else Inr (n, g2\<lparr> node_list := node_list g2 @ [n] \<rparr>))"


subsection \<open>Tail-return merging\<close>

definition is_switch :: "op_decls \<Rightarrow> asm_node_t \<Rightarrow> bool" where
  "is_switch Ops nd = asmf_switch Ops (op (output_inst nd))"

text \<open>The first loop of \<^verbatim>\<open>o_returns\<close> (line 446): the nodes without outputs.\<close>

definition returns_of :: "asm_graph_t \<Rightarrow> node_ptr list" where
  "returns_of g = filter (\<lambda>n. m_outputs (nodes g n) = []) (node_list g)"

text \<open>The body of the tail-call loop (line 451).\<close>

definition tail_call_optimize :: "op_decls \<Rightarrow> node_ptr \<Rightarrow> asm_graph_t \<Rightarrow> asm_graph_t" where
  "tail_call_optimize Ops n g =
     (let nd = nodes g n
      in if op (output_inst nd) \<noteq> RTS_IMPLIED \<or> code nd = [] then g
         else let new_op = tail_call_op Ops (op (last (code nd)))
              in if new_op \<noteq> BAD_OP
                 then upd_node n (\<lambda>nd. nd\<lparr> output_inst := (last (code nd))\<lparr> op := new_op \<rparr> \<rparr>) g
                 else g)"

text \<open>
  The search for duplicated code (line 479): the loop walks both vectors from the back
  while the instructions agree, up to the shorter length.
\<close>

fun common_prefix_len :: "'a list \<Rightarrow> 'a list \<Rightarrow> nat" where
  "common_prefix_len (x # xs) (y # ys) = (if x \<noteq> y then 0 else Suc (common_prefix_len xs ys))"
| "common_prefix_len _ _ = 0"

definition match_len :: "asm_inst_t list \<Rightarrow> asm_inst_t list \<Rightarrow> nat" where
  "match_len a_code b_code = common_prefix_len (rev a_code) (rev b_code)"

text \<open>
  The body of the double loop over the pairs \<open>i < j\<close> of returns (line 466), with the
  three \<^verbatim>\<open>continue\<close> guards in the source's order; the result says whether the
  pair was combined.
\<close>

definition combine_pair :: "op_decls \<Rightarrow> node_ptr \<Rightarrow> node_ptr \<Rightarrow> asm_graph_t \<Rightarrow> error + (asm_graph_t \<times> bool)" where
  "combine_pair Ops a b g =
     (if \<not> (m_outputs (nodes g a) = []) \<or> m_outputs (nodes g b) = [] then Inr (g, False)
      else if output_inst (nodes g a) \<noteq> output_inst (nodes g b) then Inr (g, False)
      else if is_switch Ops (nodes g a) \<or> is_switch Ops (nodes g b) then Inr (g, False)
      else let ml = match_len (code (nodes g a)) (code (nodes g b))
           in if ml \<ge> 2 then
                (let new_code = drop (length (code (nodes g a)) - ml) (code (nodes g a))
                 in case push_back loc_none False g of
                      Inl e \<Rightarrow> Inl e
                    | Inr (new_node, g1) \<Rightarrow>
                        (let g2 = upd_node new_node
                                    (\<lambda>nd. nd\<lparr> cfg := (if cfg (nodes g1 a) \<noteq> None then cfg (nodes g1 a)
                                                      else cfg (nodes g1 b)),
                                              code := new_code,
                                              output_inst := output_inst (nodes g1 a) \<rparr>) g1;
                             g3 = upd_node a (\<lambda>nd. nd\<lparr> code := take (length (code nd) - ml) (code nd) \<rparr>) g2;
                             g4 = upd_node b (\<lambda>nd. nd\<lparr> code := take (length (code nd) - ml) (code nd) \<rparr>) g3;
                             g5 = push_output a (edge_to new_node) g4;
                             g6 = push_output b (edge_to new_node) g5;
                             g7 = upd_node b (\<lambda>nd. nd\<lparr> output_inst := inst_op JMP_ABSOLUTE \<rparr>) g6;
                             g8 = upd_node a (\<lambda>nd. nd\<lparr> output_inst := inst_op JMP_ABSOLUTE \<rparr>) g7
                         in Inr (g8, True)))
              else Inr (g, False))"

fun combine_inner :: "op_decls \<Rightarrow> node_ptr \<Rightarrow> node_ptr list \<Rightarrow> asm_graph_t \<Rightarrow> bool \<Rightarrow> error + (asm_graph_t \<times> bool)" where
  "combine_inner Ops a [] g changed = Inr (g, changed)"
| "combine_inner Ops a (b # bs) g changed =
     (case combine_pair Ops a b g of
        Inl e \<Rightarrow> Inl e
      | Inr (g', c) \<Rightarrow> combine_inner Ops a bs g' (changed \<or> c))"

fun combine_outer :: "op_decls \<Rightarrow> node_ptr list \<Rightarrow> asm_graph_t \<Rightarrow> bool \<Rightarrow> error + (asm_graph_t \<times> bool)" where
  "combine_outer Ops [] g changed = Inr (g, changed)"
| "combine_outer Ops (a # rest) g changed =
     (case combine_inner Ops a rest g changed of
        Inl e \<Rightarrow> Inl e
      | Inr (g', c) \<Rightarrow> combine_outer Ops rest g' c)"

text \<open>\<^verbatim>\<open>asm_graph_t::o_returns\<close> (line 441): the graph after the pass, and \<^verbatim>\<open>changed\<close>.\<close>

definition o_returns :: "op_decls \<Rightarrow> asm_graph_t \<Rightarrow> error + (asm_graph_t \<times> bool)" where
  "o_returns Ops g =
     (let returns = returns_of g;
          g1 = fold (tail_call_optimize Ops) returns g
      in combine_outer Ops returns g1 False)"

subsection \<open>Linearisation\<close>

text \<open>The first loop of \<^verbatim>\<open>to_linear\<close> (line 572): every node of the order gets its id.\<close>

fun assign_vids :: "nat \<Rightarrow> node_ptr list \<Rightarrow> asm_graph_t \<Rightarrow> asm_graph_t" where
  "assign_vids next_id [] g = g"
| "assign_vids next_id (n # rest) g =
     assign_vids (Suc next_id) rest (upd_node n (\<lambda>nd. nd\<lparr> vid := next_id \<rparr>) g)"

text \<open>The lambda \<^verbatim>\<open>get_label\<close> (line 584).\<close>

definition get_label :: "asm_node_t \<Rightarrow> locator_t" where
  "get_label nd =
     (if loc_bool (label nd) \<and> lclass (label nd) \<noteq> LOC_MINOR_LABEL then label nd
      else minor_label (vid nd))"

text \<open>
  The bounds of a switch's case values (line 599), with the two \<^verbatim>\<open>passert\<close>s: the
  pair of \<^verbatim>\<open>min\<close> and \<^verbatim>\<open>max\<close>, starting from \<open>0xFF\<close> and \<open>0\<close>.
\<close>

fun case_bounds :: "asm_edge_t list \<Rightarrow> int \<times> int \<Rightarrow> error + (int \<times> int)" where
  "case_bounds [] mm = Inr mm"
| "case_bounds (e # es) (mn, mx) =
     (if \<not> case_value e \<ge> 0 then Inl Assertion_failed
      else if \<not> case_value e \<le> 255 then Inl Assertion_failed
      else case_bounds es (min mn (case_value e), max mx (case_value e)))"

text \<open>
  \<^verbatim>\<open>table.resize(size, locator_t::const_byte(0))\<close> on the table that is declared
  before the loop (line 593) and so keeps its contents from one switch to the next.
\<close>

definition resize :: "nat \<Rightarrow> 'a \<Rightarrow> 'a list \<Rightarrow> 'a list" where
  "resize n x xs = (if n \<le> length xs then take n xs else xs @ replicate (n - length xs) x)"

text \<open>The loop that fills the table (line 619); \<open>mn\<close> is the least case value.\<close>

fun fill_table :: "asm_graph_t \<Rightarrow> int \<Rightarrow> asm_edge_t list \<Rightarrow> locator_t list \<Rightarrow> error + locator_t list" where
  "fill_table g mn [] table = Inr table"
| "fill_table g mn (e # es) table =
     (case node e of
        None \<Rightarrow> Inl Null_pointer
      | Some t \<Rightarrow>
          fill_table g mn es
            (table[nat (case_value e - mn) := with_advance_offset (-1) (get_label (nodes g t))]))"

definition table_block :: "cfg_ht \<Rightarrow> locator_t list \<Rightarrow> asm_inst_t list" where
  "table_block c table =
     [inst_arg ASM_LABEL (switch_lo_table c)]
     @ map (\<lambda>loc. inst_arg ASM_DATA (with_is IS_PTR loc)) table
     @ [inst_arg ASM_LABEL (switch_hi_table c)]
     @ map (\<lambda>loc. inst_arg ASM_DATA (with_is IS_PTR_HI loc)) table"

text \<open>
  One round of the loop that prepares the switch tables (line 594) for a switch node,
  from the table and the graph it finds: the table it leaves, the instructions it
  appends to \<^verbatim>\<open>table_code\<close>, and the graph with the terminator's offsets advanced.
  A size outside \<open>0..256\<close> fails the assertion or exceeds the capacity of the
  \<^verbatim>\<open>static_vector\<close>.
\<close>

definition switch_table_step ::
  "node_ptr \<Rightarrow> locator_t list \<Rightarrow> asm_graph_t \<Rightarrow> error + (locator_t list \<times> asm_inst_t list \<times> asm_graph_t)" where
  "switch_table_step n table g =
     (case case_bounds (m_outputs (nodes g n)) (255, 0) of
        Inl e \<Rightarrow> Inl e
      | Inr (mn, mx) \<Rightarrow>
          (let sz = mx - mn + 1
           in if \<not> sz \<le> 256 then Inl Assertion_failed
              else if sz < 0 then Inl Assertion_failed
              else
                (let g1 = upd_node n
                       (\<lambda>nd. nd\<lparr> output_inst := (output_inst nd)
                           \<lparr> arg := with_advance_offset (- mn) (arg (output_inst nd)),
                             alt := with_advance_offset (- mn) (alt (output_inst nd)) \<rparr> \<rparr>) g;
                     table1 = resize (nat sz) (const_byte 0) table
                 in case fill_table g1 mn (m_outputs (nodes g1 n)) table1 of
                      Inl e \<Rightarrow> Inl e
                    | Inr table2 \<Rightarrow>
                        Inr (table2,
                             table_block (cfg_node (arg (output_inst (nodes g1 n)))) table2,
                             g1))))"

fun switch_tables ::
  "op_decls \<Rightarrow> node_ptr list \<Rightarrow> locator_t list \<Rightarrow> asm_graph_t \<Rightarrow> error + (asm_inst_t list \<times> asm_graph_t)" where
  "switch_tables Ops [] table g = Inr ([], g)"
| "switch_tables Ops (n # rest) table g =
     (if \<not> is_switch Ops (nodes g n) then switch_tables Ops rest table g
      else case switch_table_step n table g of
             Inl e \<Rightarrow> Inl e
           | Inr (table', block, g') \<Rightarrow>
               (case switch_tables Ops rest table' g' of
                  Inl e \<Rightarrow> Inl e
                | Inr (blocks, g'') \<Rightarrow> Inr (block @ blocks, g'')))"

text \<open>The test that decides whether a node's label is emitted (line 643).\<close>

definition needs_label :: "op_decls \<Rightarrow> asm_graph_t \<Rightarrow> node_ptr option \<Rightarrow> node_ptr \<Rightarrow> bool" where
  "needs_label Ops g prev n =
     (let nd = nodes g n
      in if length (m_inputs nd) > 1
            \<or> (length (m_inputs nd) = 1 \<and> prev \<noteq> Some (m_inputs nd ! 0))
            \<or> label nd = m_entry_label g
         then True
         else list_ex (\<lambda>input. is_switch Ops (nodes g input)) (m_inputs nd))"

text \<open>The loop over the outputs of a node with one or two of them (line 664).\<close>

fun emit_jumps :: "op_decls \<Rightarrow> asm_graph_t \<Rightarrow> op_t \<Rightarrow> node_ptr option \<Rightarrow> nat \<Rightarrow> asm_edge_t list \<Rightarrow> error + asm_inst_t list" where
  "emit_jumps Ops g p next j [] = Inr []"
| "emit_jumps Ops g p next j (e # es) =
     (if node e = next then emit_jumps Ops g p next (Suc j) es
      else case node e of
             None \<Rightarrow> Inl Null_pointer
           | Some t \<Rightarrow>
               (case emit_jumps Ops g p next (Suc j) es of
                  Inl err \<Rightarrow> Inl err
                | Inr is \<Rightarrow>
                    Inr (inst_arg (if j > 0 \<and> is_branch Ops p then invert_branch Ops p else p)
                           (get_label (nodes g t)) # is)))"

text \<open>What the main loop emits for one node (line 639): label, code, terminator.\<close>

definition emit_node :: "op_decls \<Rightarrow> asm_graph_t \<Rightarrow> node_ptr option \<Rightarrow> node_ptr \<Rightarrow> node_ptr option \<Rightarrow> error + asm_inst_t list" where
  "emit_node Ops g prev n next =
     (let nd = nodes g n;
          lab = (if needs_label Ops g prev n then [inst_arg ASM_LABEL (get_label nd)] else [])
      in if op (output_inst nd) \<noteq> BAD_OP then
           (if is_switch Ops nd \<or> m_outputs nd = [] then Inr (lab @ code nd @ [output_inst nd])
            else if \<not> length (m_outputs nd) \<le> 2 then Inl Assertion_failed
            else case emit_jumps Ops g (op (output_inst nd)) next 0 (m_outputs nd) of
                   Inl e \<Rightarrow> Inl e
                 | Inr js \<Rightarrow> Inr (lab @ code nd @ js))
         else if \<not> m_outputs nd = [] then Inl Assertion_failed
         else Inr (lab @ code nd))"

fun main_code :: "op_decls \<Rightarrow> asm_graph_t \<Rightarrow> node_ptr option \<Rightarrow> node_ptr list \<Rightarrow> error + asm_inst_t list" where
  "main_code Ops g prev [] = Inr []"
| "main_code Ops g prev (n # rest) =
     (case emit_node Ops g prev n (case rest of [] \<Rightarrow> None | m # _ \<Rightarrow> Some m) of
        Inl e \<Rightarrow> Inl e
      | Inr c \<Rightarrow>
          (case main_code Ops g (Some n) rest of
             Inl e \<Rightarrow> Inl e
           | Inr cs \<Rightarrow> Inr (c @ cs)))"

text \<open>
  \<^verbatim>\<open>asm_graph_t::to_linear\<close> (line 565): the instructions, and the graph with the
  ids and the advanced switch terminators.
\<close>

definition to_linear :: "op_decls \<Rightarrow> node_ptr list \<Rightarrow> asm_graph_t \<Rightarrow> error + (asm_inst_t list \<times> asm_graph_t)" where
  "to_linear Ops ord g =
     (let g1 = assign_vids 0 ord g
      in case switch_tables Ops ord [] g1 of
           Inl e \<Rightarrow> Inl e
         | Inr (table_code, g2) \<Rightarrow>
             (case main_code Ops g2 None ord of
                Inl e \<Rightarrow> Inl e
              | Inr c \<Rightarrow> Inr (c @ table_code, g2)))"

subsection \<open>Ordering: the weighted edges\<close>

record edge_t =
  e_from :: node_ptr
  e_output :: nat
  e_weight :: nat

text \<open>
  \<^verbatim>\<open>build_incoming\<close> (line 709). The recursion follows the inputs of nodes that
  carry a CFG label with data and belong to the same CFG node; nothing in the code
  bounds it, so the model gives it fuel. The set is a list without duplicates.
\<close>

fun fold_error :: "('a \<Rightarrow> 'b \<Rightarrow> error + 'b) \<Rightarrow> 'a list \<Rightarrow> 'b \<Rightarrow> error + 'b" where
  "fold_error f [] s = Inr s"
| "fold_error f (x # xs) s = (case f x s of Inl e \<Rightarrow> Inl e | Inr s' \<Rightarrow> fold_error f xs s')"

fun build_incoming :: "nat \<Rightarrow> asm_graph_t \<Rightarrow> node_ptr \<Rightarrow> cfg_ht option \<Rightarrow> cfg_ht option list \<Rightarrow> error + cfg_ht option list" where
  "build_incoming 0 g n c incoming = Inl Out_of_fuel"
| "build_incoming (Suc fuel) g n c incoming =
     (if cfg (nodes g n) \<noteq> c then Inr (List.insert (cfg (nodes g n)) incoming)
      else if lclass (label (nodes g n)) = LOC_CFG_LABEL \<and> data (label (nodes g n)) > 0
        then fold_error (\<lambda>input inc. build_incoming fuel g input c inc) (m_inputs (nodes g n)) incoming
      else Inr incoming)"

text \<open>
  The lambda \<^verbatim>\<open>scale\<close> (line 735) for the node \<open>n\<close> and one of its targets.
  \<^verbatim>\<open>edge_depth\<close> (ir_algo.hpp) is a parameter, here on 32-bit unsigned values as
  the code's \<^verbatim>\<open>unsigned depth\<close>.
\<close>

definition scale :: "nat \<Rightarrow> (cfg_ht option \<Rightarrow> cfg_ht option \<Rightarrow> 32 word) \<Rightarrow> asm_graph_t \<Rightarrow> node_ptr \<Rightarrow> node_ptr \<Rightarrow> error + nat" where
  "scale fuel edge_depth g n other =
     (let other_cfg = (if cfg (nodes g other) = None then cfg (nodes g n) else cfg (nodes g other))
      in if cfg (nodes g n) = None then Inr 1
         else case (if cfg (nodes g n) = other_cfg then build_incoming fuel g n (cfg (nodes g n)) []
                    else Inr []) of
                Inl e \<Rightarrow> Inl e
              | Inr incoming \<Rightarrow>
                  (let depth = (if incoming = [] then edge_depth (cfg (nodes g n)) other_cfg
                                else fold (\<lambda>c d. max d (edge_depth c other_cfg)) incoming 0)
                   in Inr (2 ^ unat (min 16 (2 * depth)))))"

definition scale_to :: "nat \<Rightarrow> (cfg_ht option \<Rightarrow> cfg_ht option \<Rightarrow> 32 word) \<Rightarrow> asm_graph_t \<Rightarrow> node_ptr \<Rightarrow> asm_edge_t \<Rightarrow> error + nat" where
  "scale_to fuel edge_depth g n e =
     (case node e of None \<Rightarrow> Inl Null_pointer | Some t \<Rightarrow> scale fuel edge_depth g n t)"

text \<open>
  The \<^verbatim>\<open>switch\<close> on the number of outputs (line 759): the edges one node adds to
  \<^verbatim>\<open>elim_order\<close>. In \<^verbatim>\<open>case 2\<close> the flag \<open>i\<close> is converted to the index 1 or 0.
\<close>

definition node_edges :: "nat \<Rightarrow> (cfg_ht option \<Rightarrow> cfg_ht option \<Rightarrow> 32 word) \<Rightarrow> asm_graph_t \<Rightarrow> node_ptr \<Rightarrow> error + edge_t list" where
  "node_edges fuel edge_depth g n =
     (case m_outputs (nodes g n) of
        [] \<Rightarrow> Inr []
      | [e0] \<Rightarrow>
          (case scale_to fuel edge_depth g n e0 of
             Inl e \<Rightarrow> Inl e
           | Inr s \<Rightarrow> Inr [\<lparr> e_from = n, e_output = 0, e_weight = 3 * s \<rparr>])
      | [e0, e1] \<Rightarrow>
          (case (node e0, node e1) of
             (Some t0, Some t1) \<Rightarrow>
               (let i = (if original_order (nodes g t0) > original_order (nodes g t1) then 1 else 0 :: nat)
                in case scale_to fuel edge_depth g n ([e0, e1] ! i) of
                     Inl e \<Rightarrow> Inl e
                   | Inr s \<Rightarrow>
                       (case scale_to fuel edge_depth g n ([e0, e1] ! (1 - i)) of
                          Inl e \<Rightarrow> Inl e
                        | Inr s' \<Rightarrow>
                            Inr [\<lparr> e_from = n, e_output = i, e_weight = 2 * s \<rparr>,
                                 \<lparr> e_from = n, e_output = 1 - i, e_weight = 1 * s' \<rparr>]))
           | _ \<Rightarrow> Inl Null_pointer)
      | outs \<Rightarrow> Inr (map (\<lambda>i. \<lparr> e_from = n, e_output = i, e_weight = 0 \<rparr>) [0..<length outs]))"

text \<open>The loop over the list (line 733) that builds \<^verbatim>\<open>elim_order\<close>.\<close>

fun elim_order :: "nat \<Rightarrow> (cfg_ht option \<Rightarrow> cfg_ht option \<Rightarrow> 32 word) \<Rightarrow> asm_graph_t \<Rightarrow> node_ptr list \<Rightarrow> error + edge_t list" where
  "elim_order fuel edge_depth g [] = Inr []"
| "elim_order fuel edge_depth g (n # rest) =
     (case node_edges fuel edge_depth g n of
        Inl e \<Rightarrow> Inl e
      | Inr es \<Rightarrow>
          (case elim_order fuel edge_depth g rest of
             Inl e \<Rightarrow> Inl e
           | Inr es' \<Rightarrow> Inr (es @ es')))"

text \<open>
  \<^verbatim>\<open>std::sort\<close> with the comparison \<^verbatim>\<open>l.weight > r.weight\<close> (line 787). The
  standard fixes the result up to the order of edges of equal weight; the model
  sorts by insertion and keeps edges of equal weight in the order they were pushed.
\<close>

fun insert_by_weight :: "edge_t \<Rightarrow> edge_t list \<Rightarrow> edge_t list" where
  "insert_by_weight e [] = [e]"
| "insert_by_weight e (x # xs) =
     (if e_weight e \<ge> e_weight x then e # x # xs else x # insert_by_weight e xs)"

definition sort_by_weight :: "edge_t list \<Rightarrow> edge_t list" where
  "sort_by_weight es = foldr insert_by_weight es []"

text \<open>The edges in the order the greedy path cover consumes them.\<close>

definition sorted_elim_order :: "nat \<Rightarrow> (cfg_ht option \<Rightarrow> cfg_ht option \<Rightarrow> 32 word) \<Rightarrow> asm_graph_t \<Rightarrow> error + edge_t list" where
  "sorted_elim_order fuel edge_depth g =
     (case elim_order fuel edge_depth g (node_list g) of
        Inl e \<Rightarrow> Inl e
      | Inr es \<Rightarrow> Inr (sort_by_weight es))"

section \<open>Removing SSA nodes without effect (o_unused.cpp)\<close>

subsection \<open>The SSA graph\<close>

text \<open>
  ir.hpp, ssa_op.hpp and worklist.hpp are not among the sources. An SSA handle is a
  number. A node is the record of what o_unused.cpp reads of it: its opcode, its
  inputs (a constant, or a reference to another node) and the two flags
  \<^verbatim>\<open>FLAG_IN_WORKLIST\<close> and \<^verbatim>\<open>FLAG_PRUNED\<close>. The output edges of a node are the
  reverse index of the inputs and are not stored. The opcodes are the ones the code
  names, and \<open>SSA_op n\<close> for every other one; the static attributes of an opcode
  that the pass tests are parameters.
\<close>

type_synonym ssa_ht = nat

datatype ssa_op_t = SSA_if | SSA_return | SSA_fn_call | SSA_switch_full | SSA_op nat

datatype input_class_t = INPUT_VALUE | INPUT_ORDER | INPUT_LINK

datatype ssa_value_t = Ssa_null | Ssa_const nat | Ssa_ref ssa_ht

record ssa_node_t =
  ssa_op :: ssa_op_t
  ssa_inputs :: "ssa_value_t list"
  flag_in_worklist :: bool
  flag_pruned :: bool

record ssa_decls =
  ssaf_write_globals :: "ssa_op_t \<Rightarrow> bool"
  ssaf_impure :: "ssa_op_t \<Rightarrow> bool"
  ssa_input0_class :: "ssa_op_t \<Rightarrow> input_class_t"

text \<open>
  The IR: the CFG nodes in insertion order, each the list of its SSA nodes, and the
  arena that resolves a handle.
\<close>

record ir_t =
  cfg_nodes :: "ssa_ht list list"
  ssa_nodes :: "ssa_ht \<Rightarrow> ssa_node_t"

definition upd_ssa :: "ssa_ht \<Rightarrow> (ssa_node_t \<Rightarrow> ssa_node_t) \<Rightarrow> ir_t \<Rightarrow> ir_t" where
  "upd_ssa h f ir = ir\<lparr> ssa_nodes := (ssa_nodes ir)(h := f (ssa_nodes ir h)) \<rparr>"

text \<open>
  The double loop \<^verbatim>\<open>for(cfg_node_t& cfg_node : ir) for(ssa_ht ssa_it = cfg_node.ssa_begin(); ssa_it; ++ssa_it)\<close>
  visits these handles in this order.
\<close>

definition all_ssa :: "ir_t \<Rightarrow> ssa_ht list" where
  "all_ssa ir = concat (cfg_nodes ir)"

text \<open>
  Modelled from the spec: \<^verbatim>\<open>for_each_node_input\<close> (ir.hpp) is missing. Section 4.E,
  step 3: the loop runs over the inputs of the popped node; the inputs that are nodes
  are those that hold a reference, here in input order.
\<close>

fun input_refs :: "ssa_value_t list \<Rightarrow> ssa_ht list" where
  "input_refs [] = []"
| "input_refs (Ssa_ref h # vs) = h # input_refs vs"
| "input_refs (_ # vs) = input_refs vs"

definition node_inputs :: "ir_t \<Rightarrow> ssa_ht \<Rightarrow> ssa_ht list" where
  "node_inputs ir h = input_refs (ssa_inputs (ssa_nodes ir h))"

subsection \<open>The worklist\<close>

text \<open>
  Modelled from the spec: worklist.hpp is missing. Section 4.C: a container of
  handles with the flag \<^verbatim>\<open>IN_WORKLIST\<close> for deduplication; \<^verbatim>\<open>push\<close> is a no-op if
  the flag is set, \<^verbatim>\<open>pop\<close> clears the flag before returning, \<^verbatim>\<open>clear\<close> resets the
  container and every held flag. The container is a stack here (the specification
  leaves the order open). The state of a pass is the IR with the worklist.
\<close>

type_synonym ssa_state = "ir_t \<times> ssa_ht list"

definition worklist_push :: "ssa_ht \<Rightarrow> ssa_state \<Rightarrow> ssa_state" where
  "worklist_push h s =
     (case s of (ir, wl) \<Rightarrow>
        if flag_in_worklist (ssa_nodes ir h) then (ir, wl)
        else (upd_ssa h (\<lambda>nd. nd\<lparr> flag_in_worklist := True \<rparr>) ir, wl @ [h]))"

definition worklist_pop :: "ssa_state \<Rightarrow> ssa_ht \<times> ssa_state" where
  "worklist_pop s =
     (case s of (ir, wl) \<Rightarrow>
        (last wl, (upd_ssa (last wl) (\<lambda>nd. nd\<lparr> flag_in_worklist := False \<rparr>) ir, butlast wl)))"

definition worklist_clear :: "ssa_state \<Rightarrow> ssa_state" where
  "worklist_clear s =
     (case s of (ir, wl) \<Rightarrow>
        (fold (\<lambda>h. upd_ssa h (\<lambda>nd. nd\<lparr> flag_in_worklist := False \<rparr>)) wl ir, []))"

subsection \<open>The pass\<close>

text \<open>The first loop of \<^verbatim>\<open>o_remove_no_effect\<close> (line 122), with its assertion.\<close>

fun mark_all_pruned :: "ssa_ht list \<Rightarrow> ir_t \<Rightarrow> error + ir_t" where
  "mark_all_pruned [] ir = Inr ir"
| "mark_all_pruned (h # hs) ir =
     (if \<not> (\<not> flag_in_worklist (ssa_nodes ir h)) then Inl Assertion_failed
      else mark_all_pruned hs (upd_ssa h (\<lambda>nd. nd\<lparr> flag_pruned := True \<rparr>) ir))"

text \<open>The body of the second loop (line 130).\<close>

definition seed_root :: "ssa_decls \<Rightarrow> ssa_ht \<Rightarrow> ssa_state \<Rightarrow> ssa_state" where
  "seed_root D h s =
     (case s of (ir, wl) \<Rightarrow>
        if ssa_op (ssa_nodes ir h) = SSA_if
           \<or> ssaf_write_globals D (ssa_op (ssa_nodes ir h))
           \<or> ssaf_impure D (ssa_op (ssa_nodes ir h))
           \<or> ssa_input0_class D (ssa_op (ssa_nodes ir h)) = INPUT_LINK
        then worklist_push h (upd_ssa h (\<lambda>nd. nd\<lparr> flag_pruned := False \<rparr>) ir, wl)
        else (ir, wl))"

text \<open>The callback of \<^verbatim>\<open>for_each_node_input\<close> in the third loop (line 146).\<close>

definition revive_input :: "ssa_ht \<Rightarrow> ssa_state \<Rightarrow> ssa_state" where
  "revive_input input s =
     (case s of (ir, wl) \<Rightarrow>
        if flag_pruned (ssa_nodes ir input)
        then worklist_push input (upd_ssa input (\<lambda>nd. nd\<lparr> flag_pruned := False \<rparr>) ir, wl)
        else (ir, wl))"

text \<open>One round of the loop \<^verbatim>\<open>while(!ssa_worklist.empty())\<close> (line 142).\<close>

definition drain_step :: "ssa_state \<Rightarrow> ssa_state" where
  "drain_step s =
     (case worklist_pop s of (ssa_it, s1) \<Rightarrow> fold revive_input (node_inputs (fst s1) ssa_it) s1)"

definition drain :: "ssa_state \<Rightarrow> ssa_state option" where
  "drain s = while_option (\<lambda>s. snd s \<noteq> []) drain_step s"

text \<open>
  Modelled from the spec: \<^verbatim>\<open>ssa_node_t::prune\<close> is missing. Section 4.B: it unlinks
  all input and output edges of the node and removes the node from its block. The
  node loses its inputs, and every input of another node that referred to it
  becomes null.
\<close>

definition unlink_ref :: "ssa_ht \<Rightarrow> ssa_value_t \<Rightarrow> ssa_value_t" where
  "unlink_ref h v = (if v = Ssa_ref h then Ssa_null else v)"

definition prune :: "ssa_ht \<Rightarrow> ir_t \<Rightarrow> ir_t" where
  "prune h ir =
     \<lparr> cfg_nodes = map (removeAll h) (cfg_nodes ir),
       ssa_nodes = (\<lambda>k. if k = h then (ssa_nodes ir k)\<lparr> ssa_inputs := [] \<rparr>
                         else (ssa_nodes ir k)\<lparr> ssa_inputs := map (unlink_ref h) (ssa_inputs (ssa_nodes ir k)) \<rparr>) \<rparr>"

text \<open>
  The last loop (line 158). Pruning a node changes neither the flags nor which other
  nodes the lists hold, so the loop visits the handles the lists held at its start.
\<close>

fun sweep :: "ssa_ht list \<Rightarrow> ir_t \<Rightarrow> bool \<Rightarrow> ir_t \<times> bool" where
  "sweep [] ir changed = (ir, changed)"
| "sweep (h # hs) ir changed =
     (if flag_pruned (ssa_nodes ir h) then sweep hs (prune h ir) True
      else sweep hs ir changed)"

text \<open>
  \<^verbatim>\<open>o_remove_no_effect\<close> (line 118) on the IR and the thread's worklist: \<open>None\<close> if
  the worklist loop does not end, the failed assertion, or the IR after the pass with
  the flag \<^verbatim>\<open>changed\<close>.
\<close>

definition o_remove_no_effect :: "ssa_decls \<Rightarrow> ssa_state \<Rightarrow> (error + (ir_t \<times> bool)) option" where
  "o_remove_no_effect D s =
     (case worklist_clear s of (ir0, wl0) \<Rightarrow>
        (case mark_all_pruned (all_ssa ir0) ir0 of
           Inl e \<Rightarrow> Some (Inl e)
         | Inr ir1 \<Rightarrow>
             (case drain (fold (seed_root D) (all_ssa ir1) (ir1, wl0)) of
                None \<Rightarrow> None
              | Some (ir2, wl2) \<Rightarrow> Some (Inr (sweep (all_ssa ir2) ir2 False)))))"

text \<open>
  The claim's words. A root of effect is a node whose opcode is \<^verbatim>\<open>SSA_if\<close>, has the
  flag \<^verbatim>\<open>WRITE_GLOBALS\<close>, has the flag \<^verbatim>\<open>IMPURE\<close>, or has the input-0 class
  \<^verbatim>\<open>LINK\<close>. Reachability by reverse input edges: \<open>depends_on ir\<close> relates a node
  of the IR to each node that one of its inputs refers to, and a node is reachable
  when a root of effect reaches it in any number of steps.
\<close>

definition is_effect_root :: "ssa_decls \<Rightarrow> ssa_op_t \<Rightarrow> bool" where
  "is_effect_root D p =
     (p = SSA_if \<or> ssaf_write_globals D p \<or> ssaf_impure D p \<or> ssa_input0_class D p = INPUT_LINK)"

definition depends_on :: "ir_t \<Rightarrow> (ssa_ht \<times> ssa_ht) set" where
  "depends_on ir = {(u, v). u \<in> set (all_ssa ir) \<and> Ssa_ref v \<in> set (ssa_inputs (ssa_nodes ir u))}"

definition effect_reachable :: "ssa_decls \<Rightarrow> ir_t \<Rightarrow> ssa_ht \<Rightarrow> bool" where
  "effect_reachable D ir h =
     (\<exists>r \<in> set (all_ssa ir). is_effect_root D (ssa_op (ssa_nodes ir r)) \<and> (r, h) \<in> (depends_on ir)\<^sup>*)"

text \<open>
  The invariants of the IR container (section 3) that the pass relies on: no node is
  listed twice, every edge ends at a node of the IR, and a node outside the worklist
  does not carry \<^verbatim>\<open>IN_WORKLIST\<close>.
\<close>

definition ir_ok :: "ssa_state \<Rightarrow> bool" where
  "ir_ok s =
     (case s of (ir, wl) \<Rightarrow>
        distinct (all_ssa ir)
        \<and> list_all (\<lambda>h. list_all (\<lambda>v. case v of Ssa_ref i \<Rightarrow> i \<in> set (all_ssa ir) | _ \<Rightarrow> True)
                                (ssa_inputs (ssa_nodes ir h))) (all_ssa ir)
        \<and> list_all (\<lambda>h. flag_in_worklist (ssa_nodes ir h) \<longrightarrow> h \<in> set wl) (all_ssa ir))"

section \<open>Predicates and instances the theorems use\<close>

text \<open>
  The deferred lookups \<^verbatim>\<open>append_code\<close> leaves behind (\<^verbatim>\<open>delay_lookup\<close>, line 250):
  every lookup names a slot of its node that exists and still holds the null pointer,
  and no two lookups name the same slot.
\<close>

definition slot_labels :: "lookup_t list \<Rightarrow> ((node_ptr \<times> nat) \<times> locator_t) list" where
  "slot_labels ls = map (\<lambda>l. ((lk_node l, lk_output l), lk_label l)) ls"

definition lookups_ok :: "asm_graph_t \<Rightarrow> lookup_t list \<Rightarrow> bool" where
  "lookups_ok g ls =
     (distinct (map fst (slot_labels ls)) \<and>
      list_all (\<lambda>l. lk_output l < length (m_outputs (nodes g (lk_node l))) \<and>
                   node (m_outputs (nodes g (lk_node l)) ! lk_output l) = None) ls)"

definition missing_label_error :: "(locator_t \<Rightarrow> string) \<Rightarrow> locator_t \<Rightarrow> error" where
  "missing_label_error show_loc l = Runtime_error (''Missing label '' @ show_loc l @ '' in assembly.'')"

text \<open>
  The scale of an edge as the specification words it, without the code's recursion
  and fuel. \<open>entrance_inputs g c\<close> is the step from a node of the CFG node \<open>c\<close>
  that carries a CFG label with data (one of the several entrances of \<open>c\<close>) to
  each of its inputs; \<open>incoming_cfgs g c n\<close> are the CFG nodes other than \<open>c\<close>
  that reach the node \<open>n\<close> by such steps. The scale is 1 when the node has no CFG
  node, and otherwise \<open>1 << min(16, 2 * depth)\<close>, where \<open>depth\<close> is the
  \<^verbatim>\<open>edge_depth\<close> from the node's CFG node to the target's, except for an edge
  inside one CFG node that other CFG nodes enter: there it is the greatest
  \<^verbatim>\<open>edge_depth\<close> from an entering CFG node.
\<close>

definition entrance_inputs :: "asm_graph_t \<Rightarrow> cfg_ht option \<Rightarrow> (node_ptr \<times> node_ptr) set" where
  "entrance_inputs g c =
     {(i, m). cfg (nodes g m) = c \<and> lclass (label (nodes g m)) = LOC_CFG_LABEL
              \<and> data (label (nodes g m)) > 0 \<and> i \<in> set (m_inputs (nodes g m))}"

definition incoming_cfgs :: "asm_graph_t \<Rightarrow> cfg_ht option \<Rightarrow> node_ptr \<Rightarrow> cfg_ht option set" where
  "incoming_cfgs g c n =
     {cfg (nodes g m) | m. (m, n) \<in> (entrance_inputs g c)\<^sup>* \<and> cfg (nodes g m) \<noteq> c}"

definition scale_depth :: "(cfg_ht option \<Rightarrow> cfg_ht option \<Rightarrow> 32 word) \<Rightarrow> asm_graph_t \<Rightarrow> node_ptr \<Rightarrow> node_ptr \<Rightarrow> 32 word" where
  "scale_depth edge_depth g n other =
     (let other_cfg = (if cfg (nodes g other) = None then cfg (nodes g n) else cfg (nodes g other));
          entering = (if cfg (nodes g n) = other_cfg then incoming_cfgs g (cfg (nodes g n)) n else {})
      in if entering = {} then edge_depth (cfg (nodes g n)) other_cfg
         else Max ((\<lambda>c. edge_depth c other_cfg) ` entering))"

definition scale_value :: "(cfg_ht option \<Rightarrow> cfg_ht option \<Rightarrow> 32 word) \<Rightarrow> asm_graph_t \<Rightarrow> node_ptr \<Rightarrow> node_ptr \<Rightarrow> nat" where
  "scale_value edge_depth g n other =
     (if cfg (nodes g n) = None then 1
      else 2 ^ unat (min 16 (2 * scale_depth edge_depth g n other)))"

text \<open>
  An entrance of the CFG node \<open>c\<close>: a node at which \<^verbatim>\<open>build_incoming\<close> recurses.
  \<open>returns_all\<close>: the fuel is enough for \<^verbatim>\<open>build_incoming\<close> to return from the
  node, whatever the set it started with.
\<close>

definition is_entrance :: "asm_graph_t \<Rightarrow> cfg_ht option \<Rightarrow> node_ptr \<Rightarrow> bool" where
  "is_entrance g c m = (cfg (nodes g m) = c \<and> lclass (label (nodes g m)) = LOC_CFG_LABEL
              \<and> data (label (nodes g m)) > 0)"

definition returns_all :: "nat \<Rightarrow> asm_graph_t \<Rightarrow> node_ptr \<Rightarrow> cfg_ht option \<Rightarrow> bool" where
  "returns_all fuel g n c = (\<forall>inc. \<exists>r. build_incoming fuel g n c inc = Inr r)"

text \<open>Every output edge of every listed node has a target (\<^verbatim>\<open>finish_appending\<close> has run).\<close>

definition outputs_resolved :: "asm_graph_t \<Rightarrow> bool" where
  "outputs_resolved g =
     list_all (\<lambda>k. list_all (\<lambda>e. node e \<noteq> None) (m_outputs (nodes g k))) (node_list g)"

text \<open>
  The content of a switch table: the entry at \<open>case_value - mn\<close> of every edge,
  unless a later edge of the same node has the same case value and overwrites it,
  is the target's label advanced by \<open>-1\<close>.
\<close>

definition table_entries_ok :: "asm_graph_t \<Rightarrow> asm_edge_t list \<Rightarrow> int \<Rightarrow> locator_t list \<Rightarrow> bool" where
  "table_entries_ok g outs mn table =
     (\<forall>j < length outs.
        (\<forall>k. j < k \<and> k < length outs \<longrightarrow> case_value (outs ! k) \<noteq> case_value (outs ! j)) \<longrightarrow>
        (\<exists>t. node (outs ! j) = Some t \<and>
             table ! nat (case_value (outs ! j) - mn) = with_advance_offset (-1) (get_label (nodes g t))))"

text \<open>The terminator with both argument offsets advanced by \<open>-mn\<close> (line 614).\<close>

definition advance_terminator :: "int \<Rightarrow> asm_inst_t \<Rightarrow> asm_inst_t" where
  "advance_terminator mn i =
     i\<lparr> arg := with_advance_offset (- mn) (arg i), alt := with_advance_offset (- mn) (alt i) \<rparr>"

text \<open>Two graphs that differ at most in the arguments of terminators.\<close>

definition same_but_terminator_args :: "asm_graph_t \<Rightarrow> asm_graph_t \<Rightarrow> bool" where
  "same_but_terminator_args g g' =
     (\<forall>m. m_outputs (nodes g' m) = m_outputs (nodes g m)
          \<and> label (nodes g' m) = label (nodes g m)
          \<and> vid (nodes g' m) = vid (nodes g m)
          \<and> code (nodes g' m) = code (nodes g m)
          \<and> op (output_inst (nodes g' m)) = op (output_inst (nodes g m)))"

text \<open>
  For the worklist loop of \<^verbatim>\<open>o_remove_no_effect\<close>: two IRs with the same lists,
  opcodes and inputs (they differ in flags only); a root of effect; the invariant of
  the loop (the worklist holds live nodes of the IR without repetition and exactly
  the flagged ones, every root is live, every live node is reachable from a root, and
  the inputs of a live node outside the worklist are live); the quantity that
  decreases with every round; and the closure of the IR under inputs.
\<close>

definition same_graph :: "ir_t \<Rightarrow> ir_t \<Rightarrow> bool" where
  "same_graph ir ir' =
     (cfg_nodes ir' = cfg_nodes ir
      \<and> (\<forall>h. ssa_op (ssa_nodes ir' h) = ssa_op (ssa_nodes ir h)
             \<and> ssa_inputs (ssa_nodes ir' h) = ssa_inputs (ssa_nodes ir h)))"

definition root_of :: "ssa_decls \<Rightarrow> ir_t \<Rightarrow> ssa_ht \<Rightarrow> bool" where
  "root_of D ir h = is_effect_root D (ssa_op (ssa_nodes ir h))"

definition live_inv :: "ssa_decls \<Rightarrow> ir_t \<Rightarrow> ssa_state \<Rightarrow> bool" where
  "live_inv D ir0 s =
     (case s of (ir, wl) \<Rightarrow>
        same_graph ir0 ir
      \<and> set wl \<subseteq> set (all_ssa ir0) \<and> distinct wl
      \<and> (\<forall>h \<in> set (all_ssa ir0). flag_in_worklist (ssa_nodes ir h) = (h \<in> set wl))
      \<and> (\<forall>h \<in> set wl. \<not> flag_pruned (ssa_nodes ir h))
      \<and> (\<forall>h \<in> set (all_ssa ir0). root_of D ir0 h \<longrightarrow> \<not> flag_pruned (ssa_nodes ir h))
      \<and> (\<forall>h \<in> set (all_ssa ir0). \<not> flag_pruned (ssa_nodes ir h) \<longrightarrow> effect_reachable D ir0 h)
      \<and> (\<forall>h \<in> set (all_ssa ir0). \<not> flag_pruned (ssa_nodes ir h) \<and> h \<notin> set wl \<longrightarrow>
            (\<forall>i \<in> set (node_inputs ir0 h). \<not> flag_pruned (ssa_nodes ir i))))"

definition pruned_count :: "ir_t \<Rightarrow> ssa_state \<Rightarrow> nat" where
  "pruned_count ir0 s =
     length (snd s) + 2 * card {h \<in> set (all_ssa ir0). flag_pruned (ssa_nodes (fst s) h)}"

definition inputs_closed :: "ir_t \<Rightarrow> bool" where
  "inputs_closed ir = (\<forall>h \<in> set (all_ssa ir). set (node_inputs ir h) \<subseteq> set (all_ssa ir))"

text \<open>One choice of the tables left as parameters, for evaluating the model.\<close>

definition decls0 :: type_decls where
  "decls0 = \<lparr> has_type_tail = (\<lambda>n. n = TYPE_ARRAY \<or> n = TYPE_FN),
              has_group_tail = is_ptr,
              type_tail_size = (\<lambda>n s. if n = TYPE_ARRAY then 1 else s),
              group_tail_size = (\<lambda>n s. s),
              is_arithmetic = (\<lambda>n. n = TYPE_INT \<or> n = TYPE_REAL \<or> n = TYPE_U10 \<or> n = TYPE_U20),
              frac_bytes = (\<lambda>n. 0),
              is_arithmetic_subset = (\<lambda>a b. a = TYPE_U10 \<and> b = TYPE_U20),
              name_value = (\<lambda>n. if n = TYPE_FN then 1 else if n = TYPE_STRUCT then 2 else 3),
              hash_combine = (\<lambda>h v. h * 31 + v) \<rparr>"

definition env0 :: eval_t where
  "env0 = \<lparr> compiler_phase = PHASE_COMPILE, interpret_size = (\<lambda>p e. 8) \<rparr>"

definition pos0 :: pstring_t where
  "pos0 = \<lparr> offset = 10, psize = 4, file_i = 0 \<rparr>"

text \<open>
  A struct \<open>Foo\<close> without an array member, its global, and the two ways the front
  end can write "eight of them": the array thunk over the struct thunk (the size
  expression still unevaluated; \<open>env0\<close> evaluates it to 8) and the array over the
  struct thunk.
\<close>

definition struct_foo :: struct_t where
  "struct_foo = \<lparr> struct_name = ''Foo'', has_array_member = False \<rparr>"

definition global_foo :: global_t where
  "global_foo = \<lparr> global_name = ''Foo'', gclass = GLOBAL_STRUCT, impl_struct = struct_foo \<rparr>"

definition foo_array_thunk :: type_t where
  "foo_array_thunk = array_thunk pos0 (struct_thunk global_foo) 0"

definition foo_array :: type_t where
  "foo_array = Type_t TYPE_ARRAY 8 (Type_tail [struct_thunk global_foo])"

definition ops0 :: op_decls where
  "ops0 = \<lparr> asmf_switch = (\<lambda>p. p = OP 9), asmf_jump = (\<lambda>p. p = JMP_ABSOLUTE),
            asmf_branch = (\<lambda>p. p = OP 3 \<or> p = OP 4),
            is_return = (\<lambda>i. op i = RTS_IMPLIED),
            is_branch = (\<lambda>p. p = OP 3 \<or> p = OP 4),
            invert_branch = (\<lambda>p. if p = OP 3 then OP 4 else if p = OP 4 then OP 3 else BAD_OP),
            tail_call_op = (\<lambda>p. BAD_OP),
            op_size = (\<lambda>p. 2) \<rparr>"

definition show_loc0 :: "locator_t \<Rightarrow> string" where
  "show_loc0 l = (if lclass l = LOC_CFG_LABEL then ''cfg'' else ''loc'')"

text \<open>
  A graph with one deferred lookup: node 0 jumps to the label of node 1, and its
  output slot is still null.
\<close>

definition graph_one_lookup :: asm_graph_t where
  "graph_one_lookup =
     \<lparr> nodes = (\<lambda>n. asm_node_init loc_none n)
          (0 := (asm_node_init (cfg_label 0) 0)
                  \<lparr> output_inst := inst_arg JMP_ABSOLUTE (cfg_label 1),
                    m_outputs := [\<lparr> node = None, case_value = -1 \<rparr>] \<rparr>,
           1 := asm_node_init (cfg_label 1) 1),
       pool_next = 2,
       node_list = [0, 1],
       label_map = [cfg_label 0 \<mapsto> 0, cfg_label 1 \<mapsto> 1],
       to_lookup = [\<lparr> lk_node = 0, lk_output = 0, lk_label = cfg_label 1 \<rparr>],
       next_order = 2,
       m_entry_label = cfg_label 0 \<rparr>"

text \<open>
  Scenario 5 of the specification: the entry block branches to two return blocks
  \<^verbatim>\<open>[LDA #1; STA $00; RTS]\<close> and \<^verbatim>\<open>[LDA #2; STA $00; RTS]\<close>. As
  \<^verbatim>\<open>append_code\<close> builds them (line 271), the return instruction is the last
  instruction of the block's code and the block has no outputs and no terminator.
  \<open>OP 1\<close> stands for the load, \<open>OP 2\<close> for the store, \<open>OP 3\<close> for the branch.
\<close>

definition lda_imm :: "nat \<Rightarrow> asm_inst_t" where
  "lda_imm v = inst_arg (OP 1) (const_byte v)"

definition sta_zp0 :: asm_inst_t where
  "sta_zp0 = inst_arg (OP 2) \<lparr> lclass = LOC_GMEMBER, handle = 0, data = 0, loc_offset = 0, loc_is = IS_DEREF \<rparr>"

definition graph_two_returns :: asm_graph_t where
  "graph_two_returns =
     \<lparr> nodes = (\<lambda>n. asm_node_init loc_none n)
          (0 := (asm_node_init (cfg_label 0) 0)
                  \<lparr> output_inst := inst_arg (OP 3) (cfg_label 2),
                    m_outputs := [edge_to 2, edge_to 1] \<rparr>,
           1 := (asm_node_init loc_none 1)
                  \<lparr> code := [lda_imm 1, sta_zp0, inst_op RTS_IMPLIED], m_inputs := [0] \<rparr>,
           2 := (asm_node_init (cfg_label 2) 2)
                  \<lparr> code := [lda_imm 2, sta_zp0, inst_op RTS_IMPLIED], m_inputs := [0] \<rparr>),
       pool_next = 3,
       node_list = [0, 1, 2],
       label_map = [cfg_label 0 \<mapsto> 0, cfg_label 2 \<mapsto> 2],
       to_lookup = [],
       next_order = 3,
       m_entry_label = cfg_label 0 \<rparr>"

text \<open>
  A loop: CFG node 1 is entered from CFG node 0 at the block 1, whose label carries
  data; block 1 branches to block 2, inside CFG node 1, which jumps back, and to
  block 3 of CFG node 2. \<open>depth_loop\<close> is an \<^verbatim>\<open>edge_depth\<close> for it.
\<close>

definition graph_loop :: asm_graph_t where
  "graph_loop =
     \<lparr> nodes = (\<lambda>n. asm_node_init loc_none n)
          (0 := (asm_node_init (cfg_label 0) 0)
                  \<lparr> m_outputs := [edge_to 1], cfg := Some 0 \<rparr>,
           1 := (asm_node_init \<lparr> lclass = LOC_CFG_LABEL, handle = 1, data = 1, loc_offset = 0, loc_is = IS_DEREF \<rparr> 1)
                  \<lparr> output_inst := inst_arg (OP 3) (cfg_label 2),
                    m_outputs := [edge_to 2, edge_to 3], m_inputs := [0, 2], cfg := Some 1 \<rparr>,
           2 := (asm_node_init loc_none 2)
                  \<lparr> m_outputs := [edge_to 1], m_inputs := [1], cfg := Some 1 \<rparr>,
           3 := (asm_node_init (cfg_label 2) 3)
                  \<lparr> code := [inst_op RTS_IMPLIED], m_inputs := [1], cfg := Some 2 \<rparr>),
       pool_next = 4,
       node_list = [0, 1, 2, 3],
       label_map = [cfg_label 0 \<mapsto> 0, cfg_label 2 \<mapsto> 3],
       to_lookup = [],
       next_order = 4,
       m_entry_label = cfg_label 0 \<rparr>"

definition depth_loop :: "cfg_ht option \<Rightarrow> cfg_ht option \<Rightarrow> 32 word" where
  "depth_loop a b = (if a = Some 0 \<and> b = Some 1 then 2 else if a = Some 1 \<and> b = Some 2 then 1 else 0)"

text \<open>
  A switch: the entry block ends in the switch \<open>OP 9\<close> on CFG node 7, with the case
  values 3 and 5 leading to two return blocks.
\<close>

definition graph_switch :: asm_graph_t where
  "graph_switch =
     \<lparr> nodes = (\<lambda>n. asm_node_init loc_none n)
          (0 := (asm_node_init (cfg_label 0) 0)
                  \<lparr> output_inst := inst_arg (OP 9) (cfg_label 7),
                    m_outputs := [\<lparr> node = Some 1, case_value = 3 \<rparr>, \<lparr> node = Some 2, case_value = 5 \<rparr>],
                    cfg := Some 7 \<rparr>,
           1 := (asm_node_init loc_none 1)
                  \<lparr> code := [inst_op RTS_IMPLIED], m_inputs := [0] \<rparr>,
           2 := (asm_node_init loc_none 2)
                  \<lparr> code := [inst_op RTS_IMPLIED], m_inputs := [0] \<rparr>),
       pool_next = 3,
       node_list = [0, 1, 2],
       label_map = [cfg_label 0 \<mapsto> 0],
       to_lookup = [],
       next_order = 3,
       m_entry_label = cfg_label 0 \<rparr>"

text \<open>
  Scenario 1 of the specification: three pure nodes 0, 1, 2 and an \<^verbatim>\<open>if\<close> (node 3)
  that depends on the first two only.
\<close>

definition ssa_decls0 :: ssa_decls where
  "ssa_decls0 = \<lparr> ssaf_write_globals = (\<lambda>p. p = SSA_op 20), ssaf_impure = (\<lambda>p. p = SSA_op 21),
                  ssa_input0_class = (\<lambda>p. if p = SSA_op 22 then INPUT_LINK else INPUT_VALUE) \<rparr>"

definition ssa_node_init :: "ssa_op_t \<Rightarrow> ssa_value_t list \<Rightarrow> ssa_node_t" where
  "ssa_node_init p vs = \<lparr> ssa_op = p, ssa_inputs = vs, flag_in_worklist = False, flag_pruned = False \<rparr>"

definition ir_three_pure :: ir_t where
  "ir_three_pure =
     \<lparr> cfg_nodes = [[0, 1, 2, 3]],
       ssa_nodes = (\<lambda>h. ssa_node_init (SSA_op 1) [])
         (0 := ssa_node_init (SSA_op 1) [Ssa_const 5, Ssa_const 6],
          1 := ssa_node_init (SSA_op 1) [Ssa_ref 0, Ssa_const 1],
          2 := ssa_node_init (SSA_op 1) [Ssa_ref 0, Ssa_ref 1],
          3 := ssa_node_init SSA_if [Ssa_ref 1]) \<rparr>"


section \<open>Type equality and hashing\<close>

lemma std_equal_hash_groups:
  "std_equal k xs ys \<Longrightarrow> hash_groups D k xs h = hash_groups D k ys h"
  by (induction k xs ys arbitrary: h rule: std_equal.induct) auto

lemma type_eq_hash_aux:
  "type_eq D a b \<Longrightarrow> hash D a = hash D b"
  "std_equal_types D k xs ys \<Longrightarrow> hash_types D k xs h = hash_types D k ys h"
proof (induction D a b and D k xs ys arbitrary: and h rule: type_eq_std_equal_types.induct)
  case (1 D n s tp b)
  note eq = "1.prems"
  obtain n' s' tp' where b: "b = Type_t n' s' tp'" by (cases b)
  from eq have ns: "n' = n" "s' = s" by (auto simp: b split: if_splits)
  show ?case
  proof (cases "has_type_tail D n")
    case True
    show ?thesis
    proof (cases "type_tail_size D n s")
      case 0
      then show ?thesis using True ns
        by (cases tp; cases tp') (auto simp: b Let_def)
    next
      case (Suc k)
      show ?thesis
      proof (cases tp)
        case (Type_tail ts)
        with eq True ns have se: "std_equal_types D (type_tail_size D n s) ts (types b)"
          by (simp add: b)
        have "\<And>h. hash_types D (type_tail_size D n s) ts h = hash_types D (type_tail_size D n s) (types b) h"
          using "1.IH"(2)[OF _ True Type_tail] ns se by (simp add: b)
        moreover have "\<exists>us. tp' = Type_tail us"
          using se Suc by (cases tp'; cases ts) (auto simp: b types_def)
        ultimately show ?thesis using True ns Type_tail
          by (auto simp: b Let_def types_def)
      qed (use eq True ns Suc in \<open>auto simp: b\<close>)
    qed
  next
    case False
    then show ?thesis using eq ns
      by (auto simp: b Let_def groups_def dest: std_equal_hash_groups)
  qed
qed auto

text \<open>
  Claim C10. Type equality is hash-consistent: whenever \<^verbatim>\<open>a == b\<close> holds, the two
  hashes are equal, for every choice of the tail classification, the tail sizes and
  \<^verbatim>\<open>hash_combine\<close>. Both functions read the name, the size and the same tail
  elements and nothing else.
\<close>

theorem type_eq_hash_consistent:
  "type_eq D a b \<Longrightarrow> hash D a = hash D b"
  by (rule type_eq_hash_aux(1))

text \<open>
  Two function types that differ in the struct behind their first argument: equality
  does not look at the struct, and neither does the hash.
\<close>

theorem type_eq_hash_consistent_witness:
  "type_eq decls0
     (Type_t TYPE_FN 2 (Type_tail [struct_type \<lparr>struct_name = ''A'', has_array_member = False\<rparr>, Type_t TYPE_U10 0 No_tail]))
     (Type_t TYPE_FN 2 (Type_tail [struct_type \<lparr>struct_name = ''B'', has_array_member = True\<rparr>, Type_t TYPE_U10 0 No_tail]))
   \<and> hash decls0
     (Type_t TYPE_FN 2 (Type_tail [struct_type \<lparr>struct_name = ''A'', has_array_member = False\<rparr>, Type_t TYPE_U10 0 No_tail]))
     = hash decls0
     (Type_t TYPE_FN 2 (Type_tail [struct_type \<lparr>struct_name = ''B'', has_array_member = True\<rparr>, Type_t TYPE_U10 0 No_tail]))"
proof -
  have h: "type_eq decls0
     (Type_t TYPE_FN 2 (Type_tail [struct_type \<lparr>struct_name = ''A'', has_array_member = False\<rparr>, Type_t TYPE_U10 0 No_tail]))
     (Type_t TYPE_FN 2 (Type_tail [struct_type \<lparr>struct_name = ''B'', has_array_member = True\<rparr>, Type_t TYPE_U10 0 No_tail]))"
    by (simp add: decls0_def struct_type_def types_def is_ptr_def numeral_2_eq_2)
  show ?thesis using h type_eq_hash_consistent [OF h] by simp
qed

section \<open>Casts between pointers\<close>

text \<open>
  Claim C9. For two types that \<^verbatim>\<open>operator==\<close> tells apart, at least one of them a
  pointer (\<^verbatim>\<open>TYPE_PTR\<close> or \<^verbatim>\<open>TYPE_BANKED_PTR\<close>), \<^verbatim>\<open>can_cast\<close> returns
  \<^verbatim>\<open>CAST_FAIL\<close> with the implicit flag set and with it clear. The function's own
  assertion excludes buffers from its arguments.
\<close>

theorem can_cast_ptr_fail:
  assumes "\<not> type_eq D from to"
    and "is_ptr (m_name from) \<or> is_ptr (m_name to)"
    and "m_name from \<noteq> TYPE_BUFFER" and "m_name to \<noteq> TYPE_BUFFER"
  shows "can_cast D from to True = Inr CAST_FAIL \<and> can_cast D from to False = Inr CAST_FAIL"
  using assms by (simp add: can_cast_def)

theorem can_cast_ptr_fail_witness:
  "\<not> type_eq decls0 (Type_t TYPE_PTR 1 (Group_tail [3])) (Type_t TYPE_BANKED_PTR 1 (Group_tail [3]))
   \<and> can_cast decls0 (Type_t TYPE_PTR 1 (Group_tail [3])) (Type_t TYPE_BANKED_PTR 1 (Group_tail [3])) True = Inr CAST_FAIL
   \<and> can_cast decls0 (Type_t TYPE_PTR 1 (Group_tail [3])) (Type_t TYPE_BANKED_PTR 1 (Group_tail [3])) False = Inr CAST_FAIL"
proof -
  have h: "\<not> type_eq decls0 (Type_t TYPE_PTR 1 (Group_tail [3])) (Type_t TYPE_BANKED_PTR 1 (Group_tail [3]))"
    by simp
  show ?thesis
    using h can_cast_ptr_fail [OF h] by (simp add: is_ptr_def)
qed

section \<open>Dethunking an array thunk\<close>

text \<open>
  What \<^verbatim>\<open>dethunkify\<close> does with an array thunk whose element type
  \<^verbatim>\<open>has_array\<close> accepts: the compile error at the thunk's position when the
  element type has an array or the size is out of range, the interned array type
  otherwise.
\<close>

lemma dethunkify_array_thunk_checked:
  assumes "compiler_phase env = PHASE_COMPILE"
    and "has_array elem_type = Inr multi"
  shows "dethunkify D env tails (array_thunk thunk_pstring elem_type expr) pstring =
     (if multi then Inl (Compiler_error thunk_pstring ''Arrays cannot be multidimensional.'')
      else if interpret_size env thunk_pstring expr \<le> 0 \<or> interpret_size env thunk_pstring expr > 256
        then Inl (Compiler_error thunk_pstring ''Invalid array size.'')
      else array D elem_type (unat (interpret_size env thunk_pstring expr)) tails)"
  using assms by (auto simp: array_thunk_def Let_def)

text \<open>
  Claim C8 (the code departs from it). The array thunk over the struct thunk of
  \<open>Foo\<close> has a size in range (8) and an element type without an array, so the claim
  has \<^verbatim>\<open>dethunkify\<close> return the array type of eight \<open>Foo\<close>. The code calls
  \<^verbatim>\<open>has_array(thunk.elem_type)\<close> (type.cpp:473) on the element as it stands, a
  struct thunk, which \<^verbatim>\<open>has_array\<close> asserts it never gets (type.cpp:444): no
  compile error and no array type. The case \<^verbatim>\<open>TYPE_ARRAY\<close> of the same function
  (type.cpp:482) dethunkifies the element first and returns the array of the struct.
\<close>

theorem dethunkify_array_thunk_of_struct_thunk:
  "compiler_phase env0 = PHASE_COMPILE
   \<and> interpret_size env0 pos0 0 = 8
   \<and> gclass global_foo = GLOBAL_STRUCT
   \<and> has_array_member (impl_struct global_foo) = False
   \<and> dethunkify decls0 env0 [] foo_array_thunk pos0 = Inl Assertion_failed
   \<and> dethunkify decls0 env0 [] foo_array pos0 =
       Inr (Type_t TYPE_ARRAY 8 (Type_tail [struct_type struct_foo]),
            [(range_hash decls0 [struct_type struct_foo], 1, [struct_type struct_foo])])"
  by (simp add: env0_def global_foo_def struct_foo_def foo_array_thunk_def foo_array_def
      array_thunk_def struct_thunk_def struct_type_def has_array_def array_def is_thunk_def
      tails_get_def)

section \<open>Resolving the deferred lookups\<close>

lemma replace_output_null:
  assumes "i < length (m_outputs (nodes g this))"
    and "node (m_outputs (nodes g this) ! i) = None"
  shows "replace_output this i (Some t) g =
     Inr (upd_node this (\<lambda>nd. nd\<lparr> m_outputs := (m_outputs nd)[i := (m_outputs nd ! i)\<lparr> node := Some t \<rparr>] \<rparr>)
            (upd_node t (\<lambda>nd. nd\<lparr> m_inputs := m_inputs nd @ [this] \<rparr>) g))"
  using assms by (simp add: replace_output_def remove_outputs_input_def)

lemma replace_output_null_facts:
  assumes "i < length (m_outputs (nodes g this))"
    and "node (m_outputs (nodes g this) ! i) = None"
  shows "\<exists>g'. replace_output this i (Some t) g = Inr g'
    \<and> label_map g' = label_map g
    \<and> to_lookup g' = to_lookup g
    \<and> (\<forall>m. m_outputs (nodes g' m) =
           (if m = this then (m_outputs (nodes g m))[i := (m_outputs (nodes g m) ! i)\<lparr> node := Some t \<rparr>]
            else m_outputs (nodes g m)))"
  using replace_output_null[OF assms, of t]
  by (auto simp: upd_node_def)

lemma finish_lookups_spec:
  assumes "lookups_ok g ls"
  shows "case find (\<lambda>l. label_map g (lk_label l) = None) ls of
           Some l \<Rightarrow> finish_lookups show_loc ls g = Inl (missing_label_error show_loc (lk_label l))
         | None \<Rightarrow> (\<exists>g'. finish_lookups show_loc ls g = Inr g' \<and> label_map g' = label_map g
               \<and> to_lookup g' = to_lookup g
               \<and> (\<forall>m. length (m_outputs (nodes g' m)) = length (m_outputs (nodes g m)))
               \<and> (\<forall>m i. i < length (m_outputs (nodes g m)) \<longrightarrow>
                     node (m_outputs (nodes g' m) ! i) =
                       (case map_of (slot_labels ls) (m, i) of
                          None \<Rightarrow> node (m_outputs (nodes g m) ! i)
                        | Some lab \<Rightarrow> label_map g lab)))"
  using assms
proof (induction ls arbitrary: g)
  case Nil
  then show ?case by (simp add: slot_labels_def)
next
  case (Cons l ls)
  show ?case
  proof (cases "label_map g (lk_label l)")
    case None
    then show ?thesis by (simp add: missing_label_error_def)
  next
    case (Some t)
    from Cons.prems have i: "lk_output l < length (m_outputs (nodes g (lk_node l)))"
      and nul: "node (m_outputs (nodes g (lk_node l)) ! lk_output l) = None"
      and dist: "(lk_node l, lk_output l) \<notin> fst ` set (slot_labels ls)"
      and rest: "lookups_ok g ls"
      by (auto simp: lookups_ok_def slot_labels_def)
    obtain g1 where g1: "replace_output (lk_node l) (lk_output l) (Some t) g = Inr g1"
      and lm: "label_map g1 = label_map g"
      and tl: "to_lookup g1 = to_lookup g"
      and outs: "\<And>m. m_outputs (nodes g1 m) =
           (if m = lk_node l then (m_outputs (nodes g m))[lk_output l := (m_outputs (nodes g m) ! lk_output l)\<lparr> node := Some t \<rparr>]
            else m_outputs (nodes g m))"
      using replace_output_null_facts[OF i nul, of t] by blast
    have ok1: "lookups_ok g1 ls"
      unfolding lookups_ok_def
    proof (intro conjI)
      show "distinct (map fst (slot_labels ls))" using rest by (simp add: lookups_ok_def)
      show "list_all (\<lambda>l. lk_output l < length (m_outputs (nodes g1 (lk_node l))) \<and>
                   node (m_outputs (nodes g1 (lk_node l)) ! lk_output l) = None) ls"
        unfolding list_all_iff
      proof
        fix k assume k: "k \<in> set ls"
        with rest have a: "lk_output k < length (m_outputs (nodes g (lk_node k)))"
          and b: "node (m_outputs (nodes g (lk_node k)) ! lk_output k) = None"
          by (auto simp: lookups_ok_def list_all_iff)
        from k have "(lk_node k, lk_output k) \<in> fst ` set (slot_labels ls)"
          by (auto simp: slot_labels_def image_iff intro!: bexI[of _ k])
        with dist have ne: "(lk_node k, lk_output k) \<noteq> (lk_node l, lk_output l)"
          by metis
        show "lk_output k < length (m_outputs (nodes g1 (lk_node k))) \<and>
                   node (m_outputs (nodes g1 (lk_node k)) ! lk_output k) = None"
          using a b ne by (auto simp: outs)
      qed
    qed
    have mo: "map_of (slot_labels ls) (lk_node l, lk_output l) = None"
      using dist by (simp add: map_of_eq_None_iff)
    show ?thesis
    proof (cases "find (\<lambda>l. label_map g (lk_label l) = None) ls")
      case None
      note IH = Cons.IH[OF ok1, unfolded lm tl]
      have "\<exists>g'. finish_lookups show_loc ls g1 = Inr g' \<and> label_map g' = label_map g
               \<and> to_lookup g' = to_lookup g
               \<and> (\<forall>m. length (m_outputs (nodes g' m)) = length (m_outputs (nodes g1 m)))
               \<and> (\<forall>m i. i < length (m_outputs (nodes g1 m)) \<longrightarrow>
                     node (m_outputs (nodes g' m) ! i) =
                       (case map_of (slot_labels ls) (m, i) of
                          None \<Rightarrow> node (m_outputs (nodes g1 m) ! i)
                        | Some lab \<Rightarrow> label_map g lab))"
        using IH None by simp
      then obtain g' where g': "finish_lookups show_loc ls g1 = Inr g'"
        "label_map g' = label_map g" "to_lookup g' = to_lookup g"
        "\<forall>m. length (m_outputs (nodes g' m)) = length (m_outputs (nodes g1 m))"
        "\<forall>m i. i < length (m_outputs (nodes g1 m)) \<longrightarrow>
                     node (m_outputs (nodes g' m) ! i) =
                       (case map_of (slot_labels ls) (m, i) of
                          None \<Rightarrow> node (m_outputs (nodes g1 m) ! i)
                        | Some lab \<Rightarrow> label_map g lab)"
        by blast
      have len: "\<forall>m. length (m_outputs (nodes g' m)) = length (m_outputs (nodes g m))"
        using g'(4) by (simp add: outs)
      have val: "\<forall>m i. i < length (m_outputs (nodes g m)) \<longrightarrow>
                     node (m_outputs (nodes g' m) ! i) =
                       (case map_of (slot_labels (l # ls)) (m, i) of
                          None \<Rightarrow> node (m_outputs (nodes g m) ! i)
                        | Some lab \<Rightarrow> label_map g lab)"
      proof (intro allI impI)
        fix m i assume lt: "i < length (m_outputs (nodes g m))"
        then have lt1: "i < length (m_outputs (nodes g1 m))" by (auto simp: outs)
        show "node (m_outputs (nodes g' m) ! i) =
                       (case map_of (slot_labels (l # ls)) (m, i) of
                          None \<Rightarrow> node (m_outputs (nodes g m) ! i)
                        | Some lab \<Rightarrow> label_map g lab)"
        proof (cases "(m, i) = (lk_node l, lk_output l)")
          case True
          then show ?thesis using g'(5) lt1 mo Some lt
            by (auto simp: slot_labels_def outs)
        next
          case False
          then have "map_of (slot_labels (l # ls)) (m, i) = map_of (slot_labels ls) (m, i)"
            by (auto simp: slot_labels_def)
          moreover have "node (m_outputs (nodes g1 m) ! i) = node (m_outputs (nodes g m) ! i)"
            using False lt by (auto simp: outs)
          ultimately show ?thesis using g'(5) lt1 by (simp split: option.splits)
        qed
      qed
      show ?thesis using None Some g1 g' len val by simp
    next
      case (Some k)
      with Cons.IH[OF ok1, unfolded lm tl] have "finish_lookups show_loc ls g1 = Inl (missing_label_error show_loc (lk_label k))"
        by simp
      then show ?thesis using Some \<open>label_map g (lk_label l) = Some t\<close> g1 by simp
    qed
  qed
qed

text \<open>
  Claim C7. \<^verbatim>\<open>finish_appending\<close> throws the runtime error naming a label exactly
  when some deferred label is absent from the label map (the label named is the first
  absent one); otherwise it returns, the list of deferred lookups is empty, and the
  output slot of every lookup holds the node its label maps to.
\<close>

theorem finish_appending_resolves:
  assumes "lookups_ok g (to_lookup g)"
  shows "if (\<exists>l. l \<in> set (to_lookup g) \<and> label_map g (lk_label l) = None)
         then (\<exists>l. l \<in> set (to_lookup g) \<and> label_map g (lk_label l) = None \<and>
                 finish_appending show_loc g =
                   Inl (Runtime_error (''Missing label '' @ show_loc (lk_label l) @ '' in assembly.'')))
         else (\<exists>g'. finish_appending show_loc g = Inr g' \<and> to_lookup g' = [] \<and>
                 list_all (\<lambda>l. \<exists>t. label_map g (lk_label l) = Some t \<and>
                     node (m_outputs (nodes g' (lk_node l)) ! lk_output l) = Some t) (to_lookup g))"
proof (cases "find (\<lambda>l. label_map g (lk_label l) = None) (to_lookup g)")
  case None
  then have all: "\<not> (\<exists>l. l \<in> set (to_lookup g) \<and> label_map g (lk_label l) = None)"
    by (auto simp: find_None_iff)
  from finish_lookups_spec[OF assms, of show_loc] None
  obtain g' where g': "finish_lookups show_loc (to_lookup g) g = Inr g'"
    and val: "\<forall>m i. i < length (m_outputs (nodes g m)) \<longrightarrow>
                     node (m_outputs (nodes g' m) ! i) =
                       (case map_of (slot_labels (to_lookup g)) (m, i) of
                          None \<Rightarrow> node (m_outputs (nodes g m) ! i)
                        | Some lab \<Rightarrow> label_map g lab)"
    by auto
  have "list_all (\<lambda>l. \<exists>t. label_map g (lk_label l) = Some t \<and>
          node (m_outputs (nodes (g'\<lparr>to_lookup := []\<rparr>) (lk_node l)) ! lk_output l) = Some t) (to_lookup g)"
    unfolding list_all_iff
  proof
    fix l assume l: "l \<in> set (to_lookup g)"
    with all obtain t where t: "label_map g (lk_label l) = Some t" by auto
    from assms l have lt: "lk_output l < length (m_outputs (nodes g (lk_node l)))"
      by (auto simp: lookups_ok_def list_all_iff)
    from assms have "distinct (map fst (slot_labels (to_lookup g)))"
      by (simp add: lookups_ok_def)
    moreover from l have "((lk_node l, lk_output l), lk_label l) \<in> set (slot_labels (to_lookup g))"
      by (auto simp: slot_labels_def)
    ultimately have "map_of (slot_labels (to_lookup g)) (lk_node l, lk_output l) = Some (lk_label l)"
      by (rule map_of_is_SomeI)
    with val lt t
    show "\<exists>t. label_map g (lk_label l) = Some t \<and>
          node (m_outputs (nodes (g'\<lparr>to_lookup := []\<rparr>) (lk_node l)) ! lk_output l) = Some t"
      by simp
  qed
  with all g' show ?thesis by (simp add: finish_appending_def)
next
  case (Some l)
  then have l: "l \<in> set (to_lookup g)" "label_map g (lk_label l) = None"
    by (auto simp: find_Some_iff)
  from finish_lookups_spec[OF assms, of show_loc] Some
  have "finish_lookups show_loc (to_lookup g) g = Inl (missing_label_error show_loc (lk_label l))"
    by simp
  then have "finish_appending show_loc g =
      Inl (Runtime_error (''Missing label '' @ show_loc (lk_label l) @ '' in assembly.''))"
    by (simp add: finish_appending_def missing_label_error_def)
  with l show ?thesis by auto
qed

theorem finish_appending_resolves_witness:
  "lookups_ok graph_one_lookup (to_lookup graph_one_lookup) \<and>
   (\<exists>g'. finish_appending show_loc0 graph_one_lookup = Inr g' \<and> to_lookup g' = [] \<and>
      node (m_outputs (nodes g' 0) ! 0) = Some 1)"
proof -
  have ok: "lookups_ok graph_one_lookup (to_lookup graph_one_lookup)"
    by (simp add: lookups_ok_def slot_labels_def graph_one_lookup_def asm_node_init_def)
  have lm: "label_map graph_one_lookup (cfg_label (Suc 0)) = Some (Suc 0)"
    by (simp add: graph_one_lookup_def cfg_label_def)
  have tl: "to_lookup graph_one_lookup = [\<lparr> lk_node = 0, lk_output = 0, lk_label = cfg_label 1 \<rparr>]"
    by (simp add: graph_one_lookup_def)
  have nc: "\<not> (\<exists>l. l \<in> set (to_lookup graph_one_lookup) \<and> label_map graph_one_lookup (lk_label l) = None)"
    by (simp add: tl lm)
  have "\<exists>g'. finish_appending show_loc0 graph_one_lookup = Inr g' \<and> to_lookup g' = [] \<and>
          list_all (\<lambda>l. \<exists>t. label_map graph_one_lookup (lk_label l) = Some t \<and>
              node (m_outputs (nodes g' (lk_node l)) ! lk_output l) = Some t) (to_lookup graph_one_lookup)"
    using finish_appending_resolves [OF ok, of show_loc0] by (simp only: nc if_False)
  then show ?thesis using ok by (auto simp: tl lm)
qed

section \<open>Tail-return merging never fires\<close>

lemma combine_pair_skip:
  "m_outputs (nodes g b) = [] \<Longrightarrow> combine_pair Ops a b g = Inr (g, False)"
  by (simp add: combine_pair_def)

lemma combine_inner_skip:
  "list_all (\<lambda>b. m_outputs (nodes g b) = []) bs \<Longrightarrow> combine_inner Ops a bs g changed = Inr (g, changed)"
  by (induction bs arbitrary: changed) (simp_all add: combine_pair_skip)

lemma combine_outer_skip:
  "list_all (\<lambda>b. m_outputs (nodes g b) = []) rs \<Longrightarrow> combine_outer Ops rs g changed = Inr (g, changed)"
  by (induction rs arbitrary: changed) (simp_all add: combine_inner_skip)

lemma tail_call_optimize_outputs:
  "m_outputs (nodes (tail_call_optimize Ops n g) k) = m_outputs (nodes g k)"
  by (simp add: tail_call_optimize_def Let_def upd_node_def)

lemma fold_tail_call_optimize_outputs:
  "m_outputs (nodes (fold (tail_call_optimize Ops) rs g) k) = m_outputs (nodes g k)"
  by (induction rs arbitrary: g) (simp_all add: tail_call_optimize_outputs)

lemma o_returns_never_combines:
  "o_returns Ops g = Inr (fold (tail_call_optimize Ops) (returns_of g) g, False)"
proof -
  have "list_all (\<lambda>b. m_outputs (nodes (fold (tail_call_optimize Ops) (returns_of g) g) b) = []) (returns_of g)"
    by (simp add: list_all_iff fold_tail_call_optimize_outputs returns_of_def)
  then show ?thesis by (simp add: o_returns_def Let_def combine_outer_skip)
qed

lemma tail_two: "fold (tail_call_optimize ops0) (returns_of graph_two_returns) graph_two_returns = graph_two_returns"
  by (simp add: returns_of_def graph_two_returns_def tail_call_optimize_def asm_node_init_def edge_to_def inst_op_def)

text \<open>
  Claim C1 (the code departs from it). On scenario 5 of the specification the two
  return blocks have equal terminators, neither is a switch, and their code shares a
  suffix of length 2, yet \<^verbatim>\<open>o_returns\<close> returns the graph unchanged and reports no
  change: the guard \<^verbatim>\<open>if(!a.outputs().empty() || b.outputs().empty()) continue;\<close>
  (line 469) skips every pair whose second block has no outputs, and every block of
  \<^verbatim>\<open>returns\<close> has none (\<open>o_returns_never_combines\<close> above holds for every
  graph).
\<close>

theorem o_returns_scenario_5_unmerged:
  "returns_of graph_two_returns = [1, 2]
   \<and> output_inst (nodes graph_two_returns 1) = output_inst (nodes graph_two_returns 2)
   \<and> \<not> is_switch ops0 (nodes graph_two_returns 1) \<and> \<not> is_switch ops0 (nodes graph_two_returns 2)
   \<and> match_len (code (nodes graph_two_returns 1)) (code (nodes graph_two_returns 2)) = 2
   \<and> o_returns ops0 graph_two_returns = Inr (graph_two_returns, False)"
proof -
  have "match_len (code (nodes graph_two_returns 1)) (code (nodes graph_two_returns 2)) = 2"
    by (simp add: graph_two_returns_def match_len_def lda_imm_def inst_arg_def const_byte_def)
  moreover have "returns_of graph_two_returns = [1, 2]"
    by (simp add: returns_of_def graph_two_returns_def asm_node_init_def edge_to_def)
  moreover have "o_returns ops0 graph_two_returns = Inr (graph_two_returns, False)"
    by (simp add: o_returns_never_combines tail_two)
  ultimately show ?thesis
    by (simp add: graph_two_returns_def is_switch_def ops0_def asm_node_init_def inst_op_def)
qed

section \<open>The weights of a two-way branch\<close>

lemma entrance_inputs_iff:
  "((i, m) \<in> entrance_inputs g c) = (is_entrance g c m \<and> i \<in> set (m_inputs (nodes g m)))"
  by (simp add: entrance_inputs_def is_entrance_def)

lemma incoming_cfgs_other_cfg:
  assumes "cfg (nodes g n) \<noteq> c"
  shows "incoming_cfgs g c n = {cfg (nodes g n)}"
proof -
  have "\<And>m. (m, n) \<in> (entrance_inputs g c)\<^sup>* \<Longrightarrow> m = n"
  proof -
    fix m assume "(m, n) \<in> (entrance_inputs g c)\<^sup>*"
    then show "m = n"
    proof (cases rule: rtranclE)
      case base then show ?thesis by simp
    next
      case (step y)
      with assms show ?thesis by (simp add: entrance_inputs_iff is_entrance_def)
    qed
  qed
  with assms show ?thesis unfolding incoming_cfgs_def by auto
qed

lemma incoming_cfgs_no_entrance:
  assumes "cfg (nodes g n) = c" and "\<not> is_entrance g c n"
  shows "incoming_cfgs g c n = {}"
proof -
  have "\<And>m. (m, n) \<in> (entrance_inputs g c)\<^sup>* \<Longrightarrow> m = n"
  proof -
    fix m assume "(m, n) \<in> (entrance_inputs g c)\<^sup>*"
    then show "m = n"
    proof (cases rule: rtranclE)
      case base then show ?thesis by simp
    next
      case (step y)
      with assms show ?thesis by (simp add: entrance_inputs_iff)
    qed
  qed
  with assms show ?thesis unfolding incoming_cfgs_def by auto
qed

lemma incoming_cfgs_entrance:
  assumes "is_entrance g c n"
  shows "incoming_cfgs g c n = (\<Union>i \<in> set (m_inputs (nodes g n)). incoming_cfgs g c i)"
proof (intro equalityI subsetI)
  fix x assume "x \<in> incoming_cfgs g c n"
  then obtain m where m: "(m, n) \<in> (entrance_inputs g c)\<^sup>*" "cfg (nodes g m) \<noteq> c" "x = cfg (nodes g m)"
    unfolding incoming_cfgs_def by blast
  from assms m(2) have "m \<noteq> n" by (auto simp: is_entrance_def)
  with m(1) obtain y where y: "(m, y) \<in> (entrance_inputs g c)\<^sup>*" "(y, n) \<in> entrance_inputs g c"
    by (cases rule: rtranclE) auto
  from y(2) have "y \<in> set (m_inputs (nodes g n))" by (simp add: entrance_inputs_iff)
  moreover from y(1) m have "x \<in> incoming_cfgs g c y" unfolding incoming_cfgs_def by blast
  ultimately show "x \<in> (\<Union>i \<in> set (m_inputs (nodes g n)). incoming_cfgs g c i)" by blast
next
  fix x assume "x \<in> (\<Union>i \<in> set (m_inputs (nodes g n)). incoming_cfgs g c i)"
  then obtain i m where i: "i \<in> set (m_inputs (nodes g n))"
    and m: "(m, i) \<in> (entrance_inputs g c)\<^sup>*" "cfg (nodes g m) \<noteq> c" "x = cfg (nodes g m)"
    unfolding incoming_cfgs_def by blast
  from i assms have "(i, n) \<in> entrance_inputs g c" by (simp add: entrance_inputs_iff)
  with m(1) have "(m, n) \<in> (entrance_inputs g c)\<^sup>*" by (rule rtrancl_into_rtrancl)
  with m show "x \<in> incoming_cfgs g c n" unfolding incoming_cfgs_def by blast
qed

lemma fold_error_set:
  assumes "\<And>i inc r. i \<in> set xs \<Longrightarrow> f i inc = Inr r \<Longrightarrow> set r = set inc \<union> I i"
    and "fold_error f xs inc = Inr r"
  shows "set r = set inc \<union> (\<Union>i \<in> set xs. I i)"
  using assms
proof (induction xs arbitrary: inc)
  case Nil
  then show ?case by simp
next
  case (Cons x xs)
  from Cons.prems(2) obtain r1 where r1: "f x inc = Inr r1" and rest: "fold_error f xs r1 = Inr r"
    by (auto split: sum.splits)
  from Cons.prems(1)[OF _ r1] have s1: "set r1 = set inc \<union> I x" by simp
  from Cons.IH[OF _ rest] Cons.prems(1) have "set r = set r1 \<union> (\<Union>i \<in> set xs. I i)" by simp
  with s1 show ?case by auto
qed

lemma build_incoming_set:
  "build_incoming fuel g n c inc = Inr r \<Longrightarrow> set r = set inc \<union> incoming_cfgs g c n"
proof (induction fuel arbitrary: n inc r)
  case 0
  then show ?case by simp
next
  case (Suc fuel)
  show ?case
  proof (cases "cfg (nodes g n) \<noteq> c")
    case True
    with Suc.prems show ?thesis by (auto simp: incoming_cfgs_other_cfg)
  next
    case False
    show ?thesis
    proof (cases "is_entrance g c n")
      case True
      with False Suc.prems have
        f: "fold_error (\<lambda>input inc. build_incoming fuel g input c inc) (m_inputs (nodes g n)) inc = Inr r"
        by (simp add: is_entrance_def)
      from fold_error_set[where I = "incoming_cfgs g c", OF _ f] Suc.IH
      have "set r = set inc \<union> (\<Union>i \<in> set (m_inputs (nodes g n)). incoming_cfgs g c i)" by blast
      then show ?thesis by (simp add: incoming_cfgs_entrance[OF True])
    next
      case ne: False
      with False Suc.prems have "r = inc" by (auto simp: is_entrance_def split: if_splits)
      with False ne show ?thesis by (simp add: incoming_cfgs_no_entrance)
    qed
  qed
qed

lemma fold_error_total:
  assumes "\<And>i inc. i \<in> set xs \<Longrightarrow> \<exists>r. f i inc = Inr r"
  shows "\<exists>r. fold_error f xs inc = Inr r"
  using assms
proof (induction xs arbitrary: inc)
  case Nil
  then show ?case by simp
next
  case (Cons x xs)
  from Cons.prems[of x inc] obtain r1 where r1: "f x inc = Inr r1" by auto
  from Cons.IH[of r1] Cons.prems obtain r where "fold_error f xs r1 = Inr r" by auto
  with r1 show ?case by simp
qed

lemma fold_error_cong_on:
  assumes "\<And>i inc. i \<in> set xs \<Longrightarrow> f i inc = f' i inc"
  shows "fold_error f xs inc = fold_error f' xs inc"
  using assms by (induction xs arbitrary: inc) (auto split: sum.splits)

lemma build_incoming_mono:
  "build_incoming fuel g n c inc = Inr r \<Longrightarrow> build_incoming (fuel + k) g n c inc = Inr r"
proof (induction fuel arbitrary: n inc r)
  case 0
  then show ?case by simp
next
  case (Suc fuel)
  show ?case
  proof (cases "cfg (nodes g n) = c \<and> lclass (label (nodes g n)) = LOC_CFG_LABEL \<and> data (label (nodes g n)) > 0")
    case False
    with Suc.prems show ?thesis by (auto split: if_splits)
  next
    case True
    with Suc.prems have
      f: "fold_error (\<lambda>input inc. build_incoming fuel g input c inc) (m_inputs (nodes g n)) inc = Inr r"
      by simp
    have "\<And>xs inc r. fold_error (\<lambda>input inc. build_incoming fuel g input c inc) xs inc = Inr r \<Longrightarrow>
        fold_error (\<lambda>input inc. build_incoming (fuel + k) g input c inc) xs inc = Inr r"
    proof -
      fix xs inc r
      show "fold_error (\<lambda>input inc. build_incoming fuel g input c inc) xs inc = Inr r \<Longrightarrow>
        fold_error (\<lambda>input inc. build_incoming (fuel + k) g input c inc) xs inc = Inr r"
      proof (induction xs arbitrary: inc)
        case Nil
        then show ?case by simp
      next
        case (Cons x xs)
        from Cons.prems obtain r1 where r1: "build_incoming fuel g x c inc = Inr r1"
          and rest: "fold_error (\<lambda>input inc. build_incoming fuel g input c inc) xs r1 = Inr r"
          by (auto split: sum.splits)
        from Suc.IH[OF r1] Cons.IH[OF rest] show ?case by simp
      qed
    qed
    from this[OF f] True show ?thesis by simp
  qed
qed

lemma returns_all_mono: "returns_all fuel g n c \<Longrightarrow> fuel \<le> fuel' \<Longrightarrow> returns_all fuel' g n c"
  unfolding returns_all_def
  by (metis build_incoming_mono le_Suc_ex)

lemma build_incoming_total:
  assumes "wf (entrance_inputs g c)"
  shows "\<exists>fuel. returns_all fuel g n c"
  using assms
proof (induction n rule: wf_induct_rule)
  case (less n)
  show ?case
  proof (cases "is_entrance g c n")
    case False
    then have "returns_all (Suc 0) g n c"
      by (auto simp: returns_all_def is_entrance_def)
    then show ?thesis by blast
  next
    case True
    have "\<forall>i \<in> set (m_inputs (nodes g n)). \<exists>fuel. returns_all fuel g i c"
      using less True by (simp add: entrance_inputs_iff)
    then obtain fs where fs: "\<forall>i \<in> set (m_inputs (nodes g n)). returns_all (fs i) g i c"
      by metis
    define F where "F = Max (insert 0 (fs ` set (m_inputs (nodes g n))))"
    have "\<And>i. i \<in> set (m_inputs (nodes g n)) \<Longrightarrow> returns_all F g i c"
    proof -
      fix i assume i: "i \<in> set (m_inputs (nodes g n))"
      then have "fs i \<le> F" unfolding F_def by (intro Max_ge) auto
      with fs i show "returns_all F g i c" by (blast intro: returns_all_mono)
    qed
    then have "\<And>inc. \<exists>r. fold_error (\<lambda>input inc. build_incoming F g input c inc) (m_inputs (nodes g n)) inc = Inr r"
      by (intro fold_error_total) (simp add: returns_all_def)
    with True have "returns_all (Suc F) g n c"
      by (simp add: returns_all_def is_entrance_def)
    then show ?thesis by blast
  qed
qed

lemma fold_max_insert:
  fixes a :: "32 word"
  shows "fold (\<lambda>c d. max d (f c)) xs a = Max (insert a (f ` set xs))"
proof (induction xs arbitrary: a)
  case Nil
  then show ?case by simp
next
  case (Cons x xs)
  have "Max (insert (max a (f x)) (f ` set xs)) = Max (insert a (insert (f x) (f ` set xs)))"
  proof (cases "set xs = {}")
    case True
    then show ?thesis by simp
  next
    case False
    then have "f ` set xs \<noteq> {}" by simp
    then show ?thesis by (simp add: max.assoc)
  qed
  with Cons show ?case by simp
qed

lemma fold_max_nonempty:
  fixes f :: "'a \<Rightarrow> 32 word"
  assumes "xs \<noteq> []"
  shows "fold (\<lambda>c d. max d (f c)) xs 0 = Max (f ` set xs)"
proof -
  from assms obtain x where x: "x \<in> set xs" by (cases xs) auto
  from x have ne: "f ` set xs \<noteq> {}" by auto
  have "Max (insert 0 (f ` set xs)) = max 0 (Max (f ` set xs))"
    by (rule Max_insert[OF _ ne]) simp
  also have "\<dots> = Max (f ` set xs)" by (simp add: max_def)
  finally show ?thesis by (simp only: fold_max_insert)
qed

lemma scale_returns_value:
  assumes "returns_all fuel g n (cfg (nodes g n))"
  shows "scale fuel E g n t = Inr (scale_value E g n t)"
proof (cases "cfg (nodes g n) = None")
  case True
  then show ?thesis by (simp add: scale_def scale_value_def)
next
  case False
  let ?oc = "if cfg (nodes g t) = None then cfg (nodes g n) else cfg (nodes g t)"
  show ?thesis
  proof (cases "cfg (nodes g n) = ?oc")
    case ne: False
    with False show ?thesis
      by (auto simp: scale_def scale_value_def scale_depth_def Let_def)
  next
    case eq: True
    from assms obtain r where r: "build_incoming fuel g n (cfg (nodes g n)) [] = Inr r"
      unfolding returns_all_def by blast
    from build_incoming_set[OF r] have s: "set r = incoming_cfgs g (cfg (nodes g n)) n" by simp
    have d: "(if r = [] then E (cfg (nodes g n)) ?oc else fold (\<lambda>c d. max d (E c ?oc)) r 0)
        = scale_depth E g n t"
    proof (cases "r = []")
      case True
      with s eq show ?thesis by (simp add: scale_depth_def Let_def)
    next
      case nr: False
      then have "incoming_cfgs g (cfg (nodes g n)) n \<noteq> {}" using s by auto
      with nr s eq show ?thesis
        by (simp add: scale_depth_def Let_def fold_max_nonempty)
    qed
    have "scale fuel E g n t =
        Inr (2 ^ unat (min 16 (2 * (if r = [] then E (cfg (nodes g n)) ?oc else fold (\<lambda>c d. max d (E c ?oc)) r 0))))"
      using False eq r by (auto simp: scale_def Let_def)
    with d False show ?thesis by (auto simp: scale_value_def)
  qed
qed

lemma enough_fuel:
  assumes "\<And>c. wf (entrance_inputs g c)"
  shows "\<exists>fuel0. \<forall>fuel \<ge> fuel0. \<forall>k \<in> set ns. returns_all fuel g k (cfg (nodes g k))"
proof (induction ns)
  case Nil
  then show ?case by simp
next
  case (Cons a ns)
  then obtain f0 where f0: "\<forall>fuel \<ge> f0. \<forall>k \<in> set ns. returns_all fuel g k (cfg (nodes g k))" by blast
  from build_incoming_total[OF assms] obtain f1 where f1: "returns_all f1 g a (cfg (nodes g a))" by blast
  have "\<forall>fuel \<ge> max f0 f1. \<forall>k \<in> set (a # ns). returns_all fuel g k (cfg (nodes g k))"
    using f0 f1 by (auto intro: returns_all_mono)
  then show ?case by blast
qed

lemma node_edges_returns:
  assumes "returns_all fuel g k (cfg (nodes g k))"
    and "list_all (\<lambda>e. node e \<noteq> None) (m_outputs (nodes g k))"
  shows "\<exists>es. node_edges fuel E g k = Inr es"
proof -
  have st: "\<And>e. node e \<noteq> None \<Longrightarrow> \<exists>s. scale_to fuel E g k e = Inr s"
    using scale_returns_value[OF assms(1)] by (auto simp: scale_to_def)
  show ?thesis
  proof (cases "m_outputs (nodes g k)")
    case Nil
    then show ?thesis by (simp add: node_edges_def)
  next
    case (Cons e0 r0)
    note c0 = Cons
    show ?thesis
    proof (cases r0)
      case Nil
      with c0 assms(2) st[of e0] show ?thesis by (auto simp: node_edges_def)
    next
      case (Cons e1 r1)
      note c1 = Cons
      show ?thesis
      proof (cases r1)
        case Nil
        with c0 c1 assms(2) obtain t0 t1 where t: "node e0 = Some t0" "node e1 = Some t1" by auto
        from st[of e0] st[of e1] t obtain s0 s1 where
          "scale_to fuel E g k e0 = Inr s0" "scale_to fuel E g k e1 = Inr s1" by auto
        with c0 c1 Nil t show ?thesis by (auto simp: node_edges_def Let_def)
      next
        case (Cons e2 r2)
        with c0 c1 show ?thesis by (simp add: node_edges_def)
      qed
    qed
  qed
qed

lemma elim_order_returns:
  assumes "\<forall>k \<in> set ns. returns_all fuel g k (cfg (nodes g k))"
    and "\<forall>k \<in> set ns. list_all (\<lambda>e. node e \<noteq> None) (m_outputs (nodes g k))"
  shows "\<exists>es. elim_order fuel E g ns = Inr es"
  using assms
proof (induction ns)
  case Nil
  then show ?case by simp
next
  case (Cons a ns)
  from node_edges_returns[of fuel g a E] Cons.prems obtain xs where "node_edges fuel E g a = Inr xs" by auto
  moreover from Cons obtain ys where "elim_order fuel E g ns = Inr ys" by auto
  ultimately show ?case by simp
qed

lemma node_edges_from:
  "node_edges fuel E g n = Inr es \<Longrightarrow> e \<in> set es \<Longrightarrow> e_from e = n"
  by (auto simp: node_edges_def Let_def split: list.splits sum.splits option.splits)

lemma elim_order_filter:
  "elim_order fuel E g ns = Inr es \<Longrightarrow> distinct ns \<Longrightarrow> n \<in> set ns \<Longrightarrow>
   \<exists>es_n. node_edges fuel E g n = Inr es_n \<and> filter (\<lambda>e. e_from e = n) es = es_n"
proof (induction ns arbitrary: es)
  case Nil
  then show ?case by simp
next
  case (Cons m ns)
  from Cons.prems(1) obtain xs ys where xs: "node_edges fuel E g m = Inr xs"
    and ys: "elim_order fuel E g ns = Inr ys" and es: "es = xs @ ys"
    by (auto split: sum.splits)
  have none: "\<And>k zs. elim_order fuel E g ns = Inr zs \<Longrightarrow> k \<notin> set ns \<Longrightarrow> filter (\<lambda>e. e_from e = k) zs = []"
  proof -
    fix k zs show "elim_order fuel E g ns = Inr zs \<Longrightarrow> k \<notin> set ns \<Longrightarrow> filter (\<lambda>e. e_from e = k) zs = []"
    proof (induction ns arbitrary: zs)
      case Nil then show ?case by simp
    next
      case (Cons a ns)
      then show ?case
        by (auto split: sum.splits simp: filter_empty_conv dest: node_edges_from)
    qed
  qed
  show ?case
  proof (cases "n = m")
    case True
    with Cons.prems(2) have "m \<notin> set ns" by simp
    with none[OF ys] have "filter (\<lambda>e. e_from e = m) ys = []" by simp
    moreover have "filter (\<lambda>e. e_from e = m) xs = xs"
      using node_edges_from[OF xs] by (simp add: filter_id_conv)
    ultimately show ?thesis using True xs es by simp
  next
    case False
    with Cons.prems have "n \<in> set ns" "distinct ns" by auto
    from Cons.IH[OF ys this(2) this(1)] obtain es_n where
      "node_edges fuel E g n = Inr es_n" "filter (\<lambda>e. e_from e = n) ys = es_n" by blast
    moreover have "filter (\<lambda>e. e_from e = n) xs = []"
      using node_edges_from[OF xs] False by (auto simp: filter_empty_conv)
    ultimately show ?thesis using es by simp
  qed
qed

lemma insert_by_weight_mset: "mset (insert_by_weight e xs) = add_mset e (mset xs)"
  by (induction xs) auto

lemma insert_by_weight_set: "set (insert_by_weight e xs) = insert e (set xs)"
  by (induction xs) auto

lemma insert_by_weight_sorted:
  "sorted_wrt (\<lambda>a b. e_weight a \<ge> e_weight b) xs \<Longrightarrow>
   sorted_wrt (\<lambda>a b. e_weight a \<ge> e_weight b) (insert_by_weight e xs)"
  by (induction xs) (auto simp: insert_by_weight_set)

lemma sort_by_weight_mset: "mset (sort_by_weight es) = mset es"
  by (induction es) (simp_all add: sort_by_weight_def insert_by_weight_mset)

lemma sort_by_weight_sorted: "sorted_wrt (\<lambda>a b. e_weight a \<ge> e_weight b) (sort_by_weight es)"
  by (induction es) (simp_all add: sort_by_weight_def insert_by_weight_sorted)

lemma node_edges_two:
  assumes "returns_all fuel g n (cfg (nodes g n))"
    and "m_outputs (nodes g n) = [e0, e1]" and "node e0 = Some t0" and "node e1 = Some t1"
  shows "node_edges fuel E g n = Inr
     (if original_order (nodes g t0) > original_order (nodes g t1)
      then [\<lparr> e_from = n, e_output = 1, e_weight = 2 * scale_value E g n t1 \<rparr>,
            \<lparr> e_from = n, e_output = 0, e_weight = 1 * scale_value E g n t0 \<rparr>]
      else [\<lparr> e_from = n, e_output = 0, e_weight = 2 * scale_value E g n t0 \<rparr>,
            \<lparr> e_from = n, e_output = 1, e_weight = 1 * scale_value E g n t1 \<rparr>])"
  using assms(2-4) scale_returns_value[OF assms(1)]
  by (simp add: node_edges_def scale_to_def Let_def)


lemma graph_loop_wf: "wf (entrance_inputs graph_loop c)"
proof (rule wf_subset[OF wf_measure])
  show "entrance_inputs graph_loop c \<subseteq> measure (\<lambda>m. if m = 1 then 1 else 0)"
    by (auto simp: entrance_inputs_def graph_loop_def asm_node_init_def loc_none_def cfg_label_def
        split: if_splits)
qed

lemma graph_loop_incoming: "incoming_cfgs graph_loop (Some 1) 1 = {Some 0}"
proof -
  from graph_loop_wf[of "Some 1"] have w: "wf (entrance_inputs graph_loop (Some 1))" .
  have "build_incoming (Suc (Suc 0)) graph_loop 1 (Some 1) [] = Inr [Some 0]"
    by (simp add: graph_loop_def asm_node_init_def loc_none_def)
  from build_incoming_set[OF this] show ?thesis by simp
qed

lemma graph_loop_scale:
  "scale_value depth_loop graph_loop 1 2 = 16 \<and> scale_value depth_loop graph_loop 1 3 = 4"
proof -
  have c: "cfg (nodes graph_loop (Suc 0)) = Some (Suc 0)" "cfg (nodes graph_loop 2) = Some (Suc 0)"
    "cfg (nodes graph_loop 3) = Some 2"
    by (simp_all add: graph_loop_def)
  have "scale_depth depth_loop graph_loop 1 2 = 2"
    by (simp add: scale_depth_def Let_def c graph_loop_incoming[simplified] depth_loop_def)
  moreover have "scale_depth depth_loop graph_loop 1 3 = 1"
    by (simp add: scale_depth_def Let_def c depth_loop_def)
  ultimately show ?thesis by (simp add: scale_value_def c)
qed

lemma graph_loop_elim:
  "elim_order 2 depth_loop graph_loop (node_list graph_loop) =
     Inr [\<lparr> e_from = 0, e_output = 0, e_weight = 48 \<rparr>, \<lparr> e_from = 1, e_output = 0, e_weight = 32 \<rparr>,
          \<lparr> e_from = 1, e_output = 1, e_weight = 4 \<rparr>, \<lparr> e_from = 2, e_output = 0, e_weight = 3 \<rparr>]"
proof -
  have f: "build_incoming 2 = build_incoming (Suc (Suc 0))" by (simp add: numeral_2_eq_2)
  show ?thesis
    by (simp add: f graph_loop_def node_edges_def scale_to_def scale_def depth_loop_def
        asm_node_init_def edge_to_def loc_none_def cfg_label_def)
qed

text \<open>
  Claim C4 as stated fails. Node 0 of the graph has the outputs 0 (to node 2, of
  original order 2) and 1 (to node 1, of original order 1), and every scale is 1.
  The claim gives the weight \<open>2 * 1\<close> to output 0, whose target has the greater
  original order; the code gives it the weight 1, and the weight 2 to output 1.
\<close>

theorem greater_order_edge_weight_counterexample:
  "m_outputs (nodes graph_two_returns 0) = [edge_to 2, edge_to 1]
   \<and> original_order (nodes graph_two_returns 2) > original_order (nodes graph_two_returns 1)
   \<and> scale 1 (\<lambda>a b. 0) graph_two_returns 0 2 = Inr 1
   \<and> scale 1 (\<lambda>a b. 0) graph_two_returns 0 1 = Inr 1
   \<and> elim_order 1 (\<lambda>a b. 0) graph_two_returns (node_list graph_two_returns) =
       Inr [\<lparr> e_from = 0, e_output = 1, e_weight = 2 \<rparr>, \<lparr> e_from = 0, e_output = 0, e_weight = 1 \<rparr>]"
  by (simp add: graph_two_returns_def node_edges_def scale_to_def scale_def
      asm_node_init_def edge_to_def)

text \<open>
  Claim C4, amended. Let no CFG node have a cycle among its entrances (so that
  \<^verbatim>\<open>build_incoming\<close> returns) and let every output edge be resolved. Then with
  enough fuel the elimination order is built, and for a node with exactly two output
  edges it holds, in this order, the edge whose target has the smaller original order
  (output 0 when the two are equal) with the weight \<open>2 * scale\<close> of its target and
  the other edge with the weight \<open>1 * scale\<close> of its target, where the scale is
  \<open>scale_value\<close>: 1 for a node without CFG node, and otherwise
  \<open>1 << min(16, 2 * depth)\<close> with the depth of \<open>scale_depth\<close>. The list the path
  cover consumes is the list of all these edges sorted by descending weight.
\<close>

theorem two_output_edge_weights:
  assumes "\<And>c. wf (entrance_inputs g c)"
    and "outputs_resolved g"
    and "distinct (node_list g)" and "n \<in> set (node_list g)"
    and "m_outputs (nodes g n) = [e0, e1]"
  shows "\<exists>fuel0 t0 t1.
           node e0 = Some t0 \<and> node e1 = Some t1
         \<and> (\<forall>fuel \<ge> fuel0. \<exists>es sorted_es.
               elim_order fuel E g (node_list g) = Inr es
             \<and> filter (\<lambda>e. e_from e = n) es =
                 (if original_order (nodes g t0) > original_order (nodes g t1)
                  then [\<lparr> e_from = n, e_output = 1, e_weight = 2 * scale_value E g n t1 \<rparr>,
                        \<lparr> e_from = n, e_output = 0, e_weight = 1 * scale_value E g n t0 \<rparr>]
                  else [\<lparr> e_from = n, e_output = 0, e_weight = 2 * scale_value E g n t0 \<rparr>,
                        \<lparr> e_from = n, e_output = 1, e_weight = 1 * scale_value E g n t1 \<rparr>])
             \<and> sorted_elim_order fuel E g = Inr sorted_es
             \<and> sorted_wrt (\<lambda>a b. e_weight a \<ge> e_weight b) sorted_es
             \<and> mset sorted_es = mset es)"
proof -
  from assms(2,4) have "list_all (\<lambda>e. node e \<noteq> None) (m_outputs (nodes g n))"
    by (simp add: outputs_resolved_def list_all_iff)
  with assms(5) obtain t0 t1 where t: "node e0 = Some t0" "node e1 = Some t1"
    by auto
  from enough_fuel[OF assms(1)] obtain fuel0 where
    f0: "\<forall>fuel \<ge> fuel0. \<forall>k \<in> set (node_list g). returns_all fuel g k (cfg (nodes g k))"
    by blast
  have res: "\<forall>k \<in> set (node_list g). list_all (\<lambda>e. node e \<noteq> None) (m_outputs (nodes g k))"
    using assms(2) by (simp add: outputs_resolved_def list_all_iff)
  have "\<exists>es sorted_es.
               elim_order fuel E g (node_list g) = Inr es
             \<and> filter (\<lambda>e. e_from e = n) es =
                 (if original_order (nodes g t0) > original_order (nodes g t1)
                  then [\<lparr> e_from = n, e_output = 1, e_weight = 2 * scale_value E g n t1 \<rparr>,
                        \<lparr> e_from = n, e_output = 0, e_weight = 1 * scale_value E g n t0 \<rparr>]
                  else [\<lparr> e_from = n, e_output = 0, e_weight = 2 * scale_value E g n t0 \<rparr>,
                        \<lparr> e_from = n, e_output = 1, e_weight = 1 * scale_value E g n t1 \<rparr>])
             \<and> sorted_elim_order fuel E g = Inr sorted_es
             \<and> sorted_wrt (\<lambda>a b. e_weight a \<ge> e_weight b) sorted_es
             \<and> mset sorted_es = mset es" if fuel: "fuel \<ge> fuel0" for fuel
  proof -
    from f0 fuel have ra: "\<forall>k \<in> set (node_list g). returns_all fuel g k (cfg (nodes g k))" by blast
    from elim_order_returns[OF ra res] obtain es where es: "elim_order fuel E g (node_list g) = Inr es"
      by blast
    from elim_order_filter[OF es assms(3,4)] obtain es_n where
      ne: "node_edges fuel E g n = Inr es_n" and f: "filter (\<lambda>e. e_from e = n) es = es_n"
      by blast
    from ra assms(4) have "returns_all fuel g n (cfg (nodes g n))" by blast
    from node_edges_two[OF this assms(5) t] ne f
    have "filter (\<lambda>e. e_from e = n) es =
                 (if original_order (nodes g t0) > original_order (nodes g t1)
                  then [\<lparr> e_from = n, e_output = 1, e_weight = 2 * scale_value E g n t1 \<rparr>,
                        \<lparr> e_from = n, e_output = 0, e_weight = 1 * scale_value E g n t0 \<rparr>]
                  else [\<lparr> e_from = n, e_output = 0, e_weight = 2 * scale_value E g n t0 \<rparr>,
                        \<lparr> e_from = n, e_output = 1, e_weight = 1 * scale_value E g n t1 \<rparr>])"
      by simp
    moreover have "sorted_elim_order fuel E g = Inr (sort_by_weight es)"
      using es by (simp add: sorted_elim_order_def)
    ultimately show ?thesis
      using es sort_by_weight_sorted[of es] sort_by_weight_mset[of es] by blast
  qed
  with t show ?thesis by blast
qed

theorem two_output_edge_weights_witness:
  "(\<forall>c. wf (entrance_inputs graph_loop c)) \<and> outputs_resolved graph_loop
   \<and> distinct (node_list graph_loop) \<and> 1 \<in> set (node_list graph_loop)
   \<and> m_outputs (nodes graph_loop 1) = [edge_to 2, edge_to 3]
   \<and> original_order (nodes graph_loop 2) < original_order (nodes graph_loop 3)
   \<and> incoming_cfgs graph_loop (Some 1) 1 = {Some 0}
   \<and> (\<exists>fuel0. \<forall>fuel \<ge> fuel0. \<exists>es sorted_es.
         elim_order fuel depth_loop graph_loop (node_list graph_loop) = Inr es
       \<and> filter (\<lambda>e. e_from e = 1) es =
           [\<lparr> e_from = 1, e_output = 0, e_weight = 32 \<rparr>, \<lparr> e_from = 1, e_output = 1, e_weight = 4 \<rparr>]
       \<and> sorted_elim_order fuel depth_loop graph_loop = Inr sorted_es
       \<and> sorted_wrt (\<lambda>a b. e_weight a \<ge> e_weight b) sorted_es
       \<and> mset sorted_es = mset es)
   \<and> elim_order 2 depth_loop graph_loop (node_list graph_loop) =
       Inr [\<lparr> e_from = 0, e_output = 0, e_weight = 48 \<rparr>, \<lparr> e_from = 1, e_output = 0, e_weight = 32 \<rparr>,
            \<lparr> e_from = 1, e_output = 1, e_weight = 4 \<rparr>, \<lparr> e_from = 2, e_output = 0, e_weight = 3 \<rparr>]"
proof -
  have r: "outputs_resolved graph_loop"
    by (simp add: outputs_resolved_def graph_loop_def asm_node_init_def edge_to_def)
  have d: "distinct (node_list graph_loop)" by (simp add: graph_loop_def)
  have m: "1 \<in> set (node_list graph_loop)" by (simp add: graph_loop_def)
  have o: "m_outputs (nodes graph_loop 1) = [edge_to 2, edge_to 3]"
    by (simp add: graph_loop_def)
  have oo: "original_order (nodes graph_loop 2) < original_order (nodes graph_loop 3)"
    by (simp add: graph_loop_def asm_node_init_def)
  from two_output_edge_weights [OF graph_loop_wf r d m o, of depth_loop]
  obtain fuel0 t0 t1 where t: "node (edge_to 2) = Some t0" "node (edge_to 3) = Some t1"
    and main: "\<forall>fuel \<ge> fuel0. \<exists>es sorted_es.
               elim_order fuel depth_loop graph_loop (node_list graph_loop) = Inr es
             \<and> filter (\<lambda>e. e_from e = 1) es =
                 (if original_order (nodes graph_loop t0) > original_order (nodes graph_loop t1)
                  then [\<lparr> e_from = 1, e_output = 1, e_weight = 2 * scale_value depth_loop graph_loop 1 t1 \<rparr>,
                        \<lparr> e_from = 1, e_output = 0, e_weight = 1 * scale_value depth_loop graph_loop 1 t0 \<rparr>]
                  else [\<lparr> e_from = 1, e_output = 0, e_weight = 2 * scale_value depth_loop graph_loop 1 t0 \<rparr>,
                        \<lparr> e_from = 1, e_output = 1, e_weight = 1 * scale_value depth_loop graph_loop 1 t1 \<rparr>])
             \<and> sorted_elim_order fuel depth_loop graph_loop = Inr sorted_es
             \<and> sorted_wrt (\<lambda>a b. e_weight a \<ge> e_weight b) sorted_es
             \<and> mset sorted_es = mset es"
    by blast
  from t have t01: "t0 = 2" "t1 = 3" by (simp_all add: edge_to_def)
  have "\<exists>fuel0. \<forall>fuel \<ge> fuel0. \<exists>es sorted_es.
         elim_order fuel depth_loop graph_loop (node_list graph_loop) = Inr es
       \<and> filter (\<lambda>e. e_from e = 1) es =
           [\<lparr> e_from = 1, e_output = 0, e_weight = 32 \<rparr>, \<lparr> e_from = 1, e_output = 1, e_weight = 4 \<rparr>]
       \<and> sorted_elim_order fuel depth_loop graph_loop = Inr sorted_es
       \<and> sorted_wrt (\<lambda>a b. e_weight a \<ge> e_weight b) sorted_es
       \<and> mset sorted_es = mset es"
    using main oo graph_loop_scale unfolding t01 by (intro exI[of _ fuel0]) simp
  with graph_loop_wf r d m o oo graph_loop_incoming graph_loop_elim show ?thesis by blast
qed
section \<open>The switch tables of the linear code\<close>

lemma case_bounds_range:
  "case_bounds es (mn0, mx0) = Inr (mn, mx) \<Longrightarrow>
   mn \<le> mn0 \<and> mx0 \<le> mx \<and> (\<forall>e \<in> set es. mn \<le> case_value e \<and> case_value e \<le> mx \<and> 0 \<le> case_value e \<and> case_value e \<le> 255)"
proof (induction es arbitrary: mn0 mx0)
  case Nil
  then show ?case by simp
next
  case (Cons e es)
  from Cons.prems have r: "case_bounds es (min mn0 (case_value e), max mx0 (case_value e)) = Inr (mn, mx)"
    and b: "0 \<le> case_value e" "case_value e \<le> 255"
    by (auto split: if_splits)
  from Cons.IH[OF r] b show ?case by auto
qed

lemma case_bounds_attained:
  "case_bounds es (mn0, mx0) = Inr (mn, mx) \<Longrightarrow>
   (mn = mn0 \<or> mn \<in> case_value ` set es) \<and> (mx = mx0 \<or> mx \<in> case_value ` set es)"
proof (induction es arbitrary: mn0 mx0)
  case Nil
  then show ?case by simp
next
  case (Cons e es)
  from Cons.prems have r: "case_bounds es (min mn0 (case_value e), max mx0 (case_value e)) = Inr (mn, mx)"
    by (auto split: if_splits)
  from Cons.IH[OF r] show ?case by (auto simp: min_def max_def split: if_splits)
qed

lemma fill_table_length:
  "fill_table g mn es table = Inr table' \<Longrightarrow> length table' = length table"
  by (induction es arbitrary: table) (auto split: option.splits)

lemma fill_table_entries:
  "fill_table g mn es table = Inr table' \<Longrightarrow>
   \<forall>e \<in> set es. mn \<le> case_value e \<and> nat (case_value e - mn) < length table \<Longrightarrow>
   table_entries_ok g es mn table'
   \<and> (\<forall>i < length table. (\<forall>e \<in> set es. nat (case_value e - mn) \<noteq> i) \<longrightarrow> table' ! i = table ! i)"
proof (induction es arbitrary: table)
  case Nil
  then show ?case by (simp add: table_entries_ok_def)
next
  case (Cons e es)
  from Cons.prems(1) obtain t where t: "node e = Some t"
    and r: "fill_table g mn es (table[nat (case_value e - mn) := with_advance_offset (-1) (get_label (nodes g t))]) = Inr table'"
    by (auto split: option.splits)
  let ?tb = "table[nat (case_value e - mn) := with_advance_offset (-1) (get_label (nodes g t))]"
  from Cons.prems(2) have rng: "\<forall>e \<in> set es. mn \<le> case_value e \<and> nat (case_value e - mn) < length ?tb"
    by simp
  from Cons.IH[OF r rng] have ok: "table_entries_ok g es mn table'"
    and keep: "\<forall>i < length ?tb. (\<forall>e \<in> set es. nat (case_value e - mn) \<noteq> i) \<longrightarrow> table' ! i = ?tb ! i"
    by auto
  have e0: "mn \<le> case_value e" "nat (case_value e - mn) < length table"
    using Cons.prems(2) by auto
  have "table_entries_ok g (e # es) mn table'"
    unfolding table_entries_ok_def
  proof (intro allI impI)
    fix j assume j: "j < length (e # es)"
      and last: "\<forall>k. j < k \<and> k < length (e # es) \<longrightarrow> case_value ((e # es) ! k) \<noteq> case_value ((e # es) ! j)"
    show "\<exists>t. node ((e # es) ! j) = Some t \<and>
             table' ! nat (case_value ((e # es) ! j) - mn) = with_advance_offset (- 1) (get_label (nodes g t))"
    proof (cases j)
      case 0
      have "\<forall>e' \<in> set es. nat (case_value e' - mn) \<noteq> nat (case_value e - mn)"
      proof
        fix e' assume e': "e' \<in> set es"
        then obtain k where k: "k < length es" "es ! k = e'" by (auto simp: in_set_conv_nth)
        with last 0 have "case_value e' \<noteq> case_value e" by (auto dest: spec[of _ "Suc k"])
        moreover from e' Cons.prems(2) have "mn \<le> case_value e'" by auto
        ultimately show "nat (case_value e' - mn) \<noteq> nat (case_value e - mn)" using e0 by auto
      qed
      with keep e0 have "table' ! nat (case_value e - mn) = ?tb ! nat (case_value e - mn)" by simp
      with 0 t e0 show ?thesis by simp
    next
      case (Suc j')
      with j have j': "j' < length es" by simp
      from last Suc have "\<forall>k. j' < k \<and> k < length es \<longrightarrow> case_value (es ! k) \<noteq> case_value (es ! j')"
        by (auto dest: spec[of _ "Suc k" for k])
      with ok j' show ?thesis using Suc by (auto simp: table_entries_ok_def)
    qed
  qed
  moreover have "\<forall>i < length table. (\<forall>e' \<in> set (e # es). nat (case_value e' - mn) \<noteq> i) \<longrightarrow> table' ! i = table ! i"
    using keep by auto
  ultimately show ?case by simp
qed

lemma resize_length: "length (resize n x xs) = n"
  by (simp add: resize_def)

lemma table_entries_ok_cong:
  "same_but_terminator_args g g' \<Longrightarrow> table_entries_ok g' outs mn tbl = table_entries_ok g outs mn tbl"
  by (simp add: table_entries_ok_def same_but_terminator_args_def get_label_def)

lemma same_but_terminator_args_refl: "same_but_terminator_args g g"
  by (simp add: same_but_terminator_args_def)

lemma same_but_terminator_args_trans:
  "same_but_terminator_args g g1 \<Longrightarrow> same_but_terminator_args g1 g2 \<Longrightarrow> same_but_terminator_args g g2"
  by (simp add: same_but_terminator_args_def)

lemma switch_table_step_facts:
  assumes "switch_table_step n table g = Inr (table', block, g')"
  shows "\<exists>mn mx. case_bounds (m_outputs (nodes g n)) (255, 0) = Inr (mn, mx)
     \<and> g' = upd_node n (\<lambda>nd. nd\<lparr> output_inst := advance_terminator mn (output_inst nd) \<rparr>) g
     \<and> block = table_block (cfg_node (arg (output_inst (nodes g n)))) table'
     \<and> 0 \<le> mx - mn + 1
     \<and> length table' = nat (mx - mn + 1)
     \<and> table_entries_ok g (m_outputs (nodes g n)) mn table'"
proof -
  from assms obtain mn mx where cb: "case_bounds (m_outputs (nodes g n)) (255, 0) = Inr (mn, mx)"
    by (auto simp: switch_table_step_def split: sum.splits)
  let ?g1 = "upd_node n (\<lambda>nd. nd\<lparr> output_inst := advance_terminator mn (output_inst nd) \<rparr>) g"
  let ?t1 = "resize (nat (mx - mn + 1)) (const_byte 0) table"
  from assms cb have sz: "mx - mn + 1 \<le> 256" "0 \<le> mx - mn + 1"
    and ft: "fill_table ?g1 mn (m_outputs (nodes ?g1 n)) ?t1 = Inr table'"
    and g': "g' = ?g1"
    and bl: "block = table_block (cfg_node (arg (output_inst (nodes ?g1 n)))) table'"
    by (auto simp: switch_table_step_def Let_def advance_terminator_def split: sum.splits if_splits)
  have outs: "m_outputs (nodes ?g1 n) = m_outputs (nodes g n)" by (simp add: upd_node_def)
  have same: "same_but_terminator_args g ?g1"
    by (simp add: same_but_terminator_args_def upd_node_def advance_terminator_def)
  from case_bounds_range[OF cb]
  have rng: "\<forall>e \<in> set (m_outputs (nodes g n)). mn \<le> case_value e \<and> nat (case_value e - mn) < length ?t1"
    by (auto simp: resize_length)
  from fill_table_entries[OF ft[unfolded outs] rng]
  have "table_entries_ok ?g1 (m_outputs (nodes g n)) mn table'" by simp
  then have ok: "table_entries_ok g (m_outputs (nodes g n)) mn table'"
    by (simp add: table_entries_ok_cong[OF same])
  have len: "length table' = nat (mx - mn + 1)"
    using fill_table_length[OF ft] by (simp add: resize_length)
  have c: "cfg_node (arg (output_inst (nodes ?g1 n))) = cfg_node (arg (output_inst (nodes g n)))"
    by (simp add: upd_node_def advance_terminator_def cfg_node_def with_advance_offset_def)
  show ?thesis using cb g' bl len ok c sz by auto
qed

lemma switch_table_step_frame:
  assumes "switch_table_step n table g = Inr (table', block, g')"
  shows "same_but_terminator_args g g' \<and> (\<forall>m. m \<noteq> n \<longrightarrow> nodes g' m = nodes g m)"
proof -
  from switch_table_step_facts[OF assms] obtain mn where
    "g' = upd_node n (\<lambda>nd. nd\<lparr> output_inst := advance_terminator mn (output_inst nd) \<rparr>) g" by blast
  then show ?thesis
    by (simp add: same_but_terminator_args_def upd_node_def advance_terminator_def)
qed

lemma switch_tables_frame:
  "switch_tables Ops ord table g = Inr (tc, g') \<Longrightarrow>
   same_but_terminator_args g g' \<and> (\<forall>m. m \<notin> set ord \<longrightarrow> nodes g' m = nodes g m)"
proof (induction ord arbitrary: table g tc)
  case Nil
  then show ?case by (simp add: same_but_terminator_args_refl)
next
  case (Cons n ord)
  show ?case
  proof (cases "is_switch Ops (nodes g n)")
    case False
    with Cons.prems have "switch_tables Ops ord table g = Inr (tc, g')" by simp
    from Cons.IH[OF this] show ?thesis by simp
  next
    case True
    with Cons.prems obtain table1 block g1 blocks where
      st: "switch_table_step n table g = Inr (table1, block, g1)"
      and rest: "switch_tables Ops ord table1 g1 = Inr (blocks, g')"
      by (auto split: sum.splits)
    from switch_table_step_frame[OF st] Cons.IH[OF rest] show ?thesis
      by (auto intro: same_but_terminator_args_trans)
  qed
qed

lemma is_switch_same:
  "same_but_terminator_args g g' \<Longrightarrow> is_switch Ops (nodes g' m) = is_switch Ops (nodes g m)"
  by (simp add: same_but_terminator_args_def is_switch_def)

lemma switch_tables_block:
  assumes "switch_tables Ops ord table g = Inr (tc, g')"
    and "distinct ord" and "n \<in> set ord" and "is_switch Ops (nodes g n)"
  shows "\<exists>pre post tbl mn mx.
           tc = pre @ table_block (cfg_node (arg (output_inst (nodes g n)))) tbl @ post
         \<and> case_bounds (m_outputs (nodes g n)) (255, 0) = Inr (mn, mx)
         \<and> 0 \<le> mx - mn + 1
         \<and> length tbl = nat (mx - mn + 1)
         \<and> table_entries_ok g (m_outputs (nodes g n)) mn tbl
         \<and> output_inst (nodes g' n) = advance_terminator mn (output_inst (nodes g n))"
  using assms
proof (induction ord arbitrary: table g tc)
  case Nil
  then show ?case by simp
next
  case (Cons m ord)
  show ?case
  proof (cases "n = m")
    case True
    with Cons.prems obtain table1 block g1 blocks where
      st: "switch_table_step n table g = Inr (table1, block, g1)"
      and rest: "switch_tables Ops ord table1 g1 = Inr (blocks, g')"
      and tc: "tc = block @ blocks"
      by (auto split: sum.splits)
    from switch_table_step_facts[OF st] obtain mn mx where
      f: "case_bounds (m_outputs (nodes g n)) (255, 0) = Inr (mn, mx)"
        "g1 = upd_node n (\<lambda>nd. nd\<lparr> output_inst := advance_terminator mn (output_inst nd) \<rparr>) g"
        "block = table_block (cfg_node (arg (output_inst (nodes g n)))) table1"
        "0 \<le> mx - mn + 1"
        "length table1 = nat (mx - mn + 1)"
        "table_entries_ok g (m_outputs (nodes g n)) mn table1"
      by blast
    from Cons.prems(2) True have "n \<notin> set ord" by simp
    with switch_tables_frame[OF rest] have "nodes g' n = nodes g1 n" by simp
    then have "output_inst (nodes g' n) = advance_terminator mn (output_inst (nodes g n))"
      by (simp add: f(2) upd_node_def)
    with f tc show ?thesis by (intro exI[of _ "[]"] exI[of _ blocks] exI[of _ table1] exI[of _ mn] exI[of _ mx]) simp
  next
    case False
    with Cons.prems have n: "n \<in> set ord" and d: "distinct ord" by auto
    show ?thesis
    proof (cases "is_switch Ops (nodes g m)")
      case sw: False
      with Cons.prems have "switch_tables Ops ord table g = Inr (tc, g')" by simp
      from Cons.IH[OF this d n Cons.prems(4)] show ?thesis .
    next
      case sw: True
      with Cons.prems obtain table1 block g1 blocks where
        st: "switch_table_step m table g = Inr (table1, block, g1)"
        and rest: "switch_tables Ops ord table1 g1 = Inr (blocks, g')"
        and tc: "tc = block @ blocks"
        by (auto split: sum.splits)
      from switch_table_step_frame[OF st] False
      have same: "same_but_terminator_args g g1" and eq: "nodes g1 n = nodes g n" by auto
      have "is_switch Ops (nodes g1 n)" using Cons.prems(4) eq by simp
      from Cons.IH[OF rest d n this] obtain pre post tbl mn mx where
        r: "blocks = pre @ table_block (cfg_node (arg (output_inst (nodes g1 n)))) tbl @ post"
          "case_bounds (m_outputs (nodes g1 n)) (255, 0) = Inr (mn, mx)"
          "0 \<le> mx - mn + 1"
          "length tbl = nat (mx - mn + 1)"
          "table_entries_ok g1 (m_outputs (nodes g1 n)) mn tbl"
          "output_inst (nodes g' n) = advance_terminator mn (output_inst (nodes g1 n))"
        by blast
      from r(5) have "table_entries_ok g (m_outputs (nodes g n)) mn tbl"
        by (simp add: eq table_entries_ok_cong[OF same])
      with r tc show ?thesis
        by (intro exI[of _ "block @ pre"] exI[of _ post] exI[of _ tbl] exI[of _ mn] exI[of _ mx])
           (simp add: eq)
    qed
  qed
qed

lemma assign_vids_frame:
  "m_outputs (nodes (assign_vids k ord g) m) = m_outputs (nodes g m)
   \<and> output_inst (nodes (assign_vids k ord g) m) = output_inst (nodes g m)
   \<and> label (nodes (assign_vids k ord g) m) = label (nodes g m)"
  by (induction k ord g rule: assign_vids.induct) (simp_all add: upd_node_def)

lemma get_label_same:
  "same_but_terminator_args g g' \<Longrightarrow> get_label (nodes g' t) = get_label (nodes g t)"
  by (simp add: same_but_terminator_args_def get_label_def)

lemma case_bounds_min_max:
  assumes "case_bounds es (255, 0) = Inr (mn, mx)" and "0 \<le> mx - mn + 1"
  shows "es \<noteq> [] \<and> mn = Min (case_value ` set es) \<and> mx = Max (case_value ` set es)"
proof -
  from assms have ne: "es \<noteq> []" by (cases es) auto
  note r = case_bounds_range[OF assms(1)] and a = case_bounds_attained[OF assms(1)]
  from ne obtain e where e: "e \<in> set es" by (cases es) auto
  have "mn \<in> case_value ` set es"
  proof (cases "mn = 255")
    case True
    with r e have "case_value e = 255" by force
    with e True show ?thesis by force
  next
    case False
    with a show ?thesis by simp
  qed
  moreover have "mx \<in> case_value ` set es"
  proof (cases "mx = 0")
    case True
    with r e have "case_value e = 0" by force
    with e True show ?thesis by force
  next
    case False
    with a show ?thesis by simp
  qed
  ultimately have "mn = Min (case_value ` set es)" "mx = Max (case_value ` set es)"
    using r by (auto intro!: Min_eqI[symmetric] Max_eqI[symmetric])
  with ne show ?thesis by simp
qed

lemma main_code_switch_terminator:
  "main_code Ops g prev ord = Inr main \<Longrightarrow> n \<in> set ord \<Longrightarrow> is_switch Ops (nodes g n) \<Longrightarrow>
   op (output_inst (nodes g n)) \<noteq> BAD_OP \<Longrightarrow> output_inst (nodes g n) \<in> set main"
proof (induction ord arbitrary: prev main)
  case Nil
  then show ?case by simp
next
  case (Cons m ord)
  from Cons.prems(1) obtain c cs where
    c: "emit_node Ops g prev m (case ord of [] \<Rightarrow> None | k # _ \<Rightarrow> Some k) = Inr c"
    and cs: "main_code Ops g (Some m) ord = Inr cs" and main: "main = c @ cs"
    by (auto split: sum.splits)
  show ?case
  proof (cases "n = m")
    case True
    with c Cons.prems(3,4) have "output_inst (nodes g n) \<in> set c"
      by (auto simp: emit_node_def Let_def)
    with main show ?thesis by simp
  next
    case False
    with Cons.prems(2) have "n \<in> set ord" by simp
    from Cons.IH[OF cs this Cons.prems(3,4)] main show ?thesis by simp
  qed
qed

lemma to_linear_switch_blocks:
  assumes "to_linear Ops ord g = Inr (linear, g')"
    and "distinct ord" and "n \<in> set ord" and "is_switch Ops (nodes g n)"
  shows "\<exists>main pre post tbl mn mx.
           main_code Ops g' None ord = Inr main
         \<and> linear = main @ pre @ table_block (cfg_node (arg (output_inst (nodes g n)))) tbl @ post
         \<and> m_outputs (nodes g n) \<noteq> []
         \<and> mn = Min (case_value ` set (m_outputs (nodes g n)))
         \<and> mx = Max (case_value ` set (m_outputs (nodes g n)))
         \<and> length tbl = nat (mx - mn + 1)
         \<and> table_entries_ok g' (m_outputs (nodes g n)) mn tbl
         \<and> output_inst (nodes g' n) = advance_terminator mn (output_inst (nodes g n))
         \<and> (op (output_inst (nodes g n)) \<noteq> BAD_OP \<longrightarrow>
              advance_terminator mn (output_inst (nodes g n)) \<in> set main)"
proof -
  let ?g1 = "assign_vids 0 ord g"
  from assms(1) obtain tc main where
    st: "switch_tables Ops ord [] ?g1 = Inr (tc, g')"
    and mc: "main_code Ops g' None ord = Inr main"
    and lin: "linear = main @ tc"
    by (auto simp: to_linear_def Let_def split: sum.splits)
  have sw: "is_switch Ops (nodes ?g1 n)"
    using assms(4) by (simp add: is_switch_def assign_vids_frame)
  from switch_tables_block[OF st assms(2,3) sw] obtain pre post tbl mn mx where
    r: "tc = pre @ table_block (cfg_node (arg (output_inst (nodes ?g1 n)))) tbl @ post"
       "case_bounds (m_outputs (nodes ?g1 n)) (255, 0) = Inr (mn, mx)"
       "0 \<le> mx - mn + 1"
       "length tbl = nat (mx - mn + 1)"
       "table_entries_ok ?g1 (m_outputs (nodes ?g1 n)) mn tbl"
       "output_inst (nodes g' n) = advance_terminator mn (output_inst (nodes ?g1 n))"
    by blast
  from switch_tables_frame[OF st] have same: "same_but_terminator_args ?g1 g'" by simp
  from r(5) have ok: "table_entries_ok g' (m_outputs (nodes g n)) mn tbl"
    by (simp add: table_entries_ok_cong[OF same] assign_vids_frame)
  from case_bounds_min_max[OF r(2,3)]
  have mm: "m_outputs (nodes g n) \<noteq> []" "mn = Min (case_value ` set (m_outputs (nodes g n)))"
    "mx = Max (case_value ` set (m_outputs (nodes g n)))"
    by (simp_all add: assign_vids_frame)
  have sw': "is_switch Ops (nodes g' n)"
    using sw by (simp add: is_switch_same[OF same])
  have emitted: "op (output_inst (nodes g n)) \<noteq> BAD_OP \<longrightarrow>
              advance_terminator mn (output_inst (nodes g n)) \<in> set main"
  proof
    assume "op (output_inst (nodes g n)) \<noteq> BAD_OP"
    then have "op (output_inst (nodes g' n)) \<noteq> BAD_OP"
      by (simp add: r(6) assign_vids_frame advance_terminator_def)
    from main_code_switch_terminator[OF mc assms(3) sw' this]
    show "advance_terminator mn (output_inst (nodes g n)) \<in> set main"
      by (simp add: r(6) assign_vids_frame)
  qed
  from r(1,4,6) mc lin ok mm emitted show ?thesis
    by (intro exI[of _ main] exI[of _ pre] exI[of _ post] exI[of _ tbl] exI[of _ mn] exI[of _ mx])
       (simp add: assign_vids_frame)
qed

lemma to_linear_graph_switch:
  "map_sum id fst (to_linear ops0 [0, 1, 2] graph_switch) = Inr
  [inst_arg ASM_LABEL (cfg_label 0),
   advance_terminator 3 (inst_arg (OP 9) (cfg_label 7)),
   inst_arg ASM_LABEL (minor_label 1), inst_op RTS_IMPLIED,
   inst_arg ASM_LABEL (minor_label 2), inst_op RTS_IMPLIED,
   inst_arg ASM_LABEL (switch_lo_table 7),
   inst_arg ASM_DATA (with_is IS_PTR (with_advance_offset (-1) (minor_label 1))),
   inst_arg ASM_DATA (with_is IS_PTR (const_byte 0)),
   inst_arg ASM_DATA (with_is IS_PTR (with_advance_offset (-1) (minor_label 2))),
   inst_arg ASM_LABEL (switch_hi_table 7),
   inst_arg ASM_DATA (with_is IS_PTR_HI (with_advance_offset (-1) (minor_label 1))),
   inst_arg ASM_DATA (with_is IS_PTR_HI (const_byte 0)),
   inst_arg ASM_DATA (with_is IS_PTR_HI (with_advance_offset (-1) (minor_label 2)))]"
  by (simp add: to_linear_def graph_switch_def ops0_def switch_table_step_def is_switch_def
      upd_node_def asm_node_init_def inst_arg_def inst_op_def resize_def table_block_def
      emit_node_def needs_label_def get_label_def loc_bool_def loc_none_def cfg_label_def
      minor_label_def const_byte_def with_advance_offset_def with_is_def cfg_node_def
      switch_lo_table_def switch_hi_table_def advance_terminator_def Let_def
      numeral_3_eq_3 numeral_2_eq_2)

lemma assign_vids_other:
  "m \<notin> set ord \<Longrightarrow> nodes (assign_vids k ord g) m = nodes g m"
  by (induction k ord g rule: assign_vids.induct) (auto simp: upd_node_def)

lemma assign_vids_vid:
  "distinct ord \<Longrightarrow> i < length ord \<Longrightarrow> vid (nodes (assign_vids k ord g) (ord ! i)) = k + i"
proof (induction k ord g arbitrary: i rule: assign_vids.induct)
  case (1 next_id g)
  then show ?case by simp
next
  case (2 next_id n rest g)
  show ?case
  proof (cases i)
    case 0
    with "2.prems" show ?thesis by (simp add: assign_vids_other upd_node_def)
  next
    case (Suc j)
    with "2.prems" "2.IH"[of j] show ?thesis by simp
  qed
qed


text \<open>
  Claim C5. When \<^verbatim>\<open>to_linear\<close> returns, every switch node \<open>n\<close> of the order has
  its two tables in the instructions after all the main code: the label
  \<^verbatim>\<open>switch_lo_table(cfg)\<close>, then \<open>N\<close> \<^verbatim>\<open>ASM_DATA\<close> entries tagged
  \<^verbatim>\<open>IS_PTR\<close>, then the label \<^verbatim>\<open>switch_hi_table(cfg)\<close> and the same \<open>N\<close>
  entries tagged \<^verbatim>\<open>IS_PTR_HI\<close>, where \<open>N = mx - mn + 1\<close> for the least and
  greatest case values \<open>mn\<close> and \<open>mx\<close> of the node's edges. The entry at
  \<open>case_value - mn\<close> of an edge (the last one, when several edges have the same
  case value) is the label of the edge's target with its offset advanced by \<open>-1\<close>:
  the target's own label, or the minor label of its id when it has no label or a
  minor one; the id of a node is its position in the order. The node's terminator,
  which the main code emits, has its argument offsets advanced by \<open>-mn\<close>.
\<close>

theorem to_linear_switch_tables:
  assumes "to_linear Ops ord g = Inr (linear, g')"
    and "distinct ord" and "n \<in> set ord" and "is_switch Ops (nodes g n)"
  shows "\<exists>main pre post tbl mn mx.
           main_code Ops g' None ord = Inr main
         \<and> linear = main @ pre
             @ \<lparr> op = ASM_LABEL, arg = switch_lo_table (cfg_node (arg (output_inst (nodes g n)))), alt = loc_none \<rparr>
             # map (\<lambda>l. \<lparr> op = ASM_DATA, arg = l\<lparr> loc_is := IS_PTR \<rparr>, alt = loc_none \<rparr>) tbl
             @ \<lparr> op = ASM_LABEL, arg = switch_hi_table (cfg_node (arg (output_inst (nodes g n)))), alt = loc_none \<rparr>
             # map (\<lambda>l. \<lparr> op = ASM_DATA, arg = l\<lparr> loc_is := IS_PTR_HI \<rparr>, alt = loc_none \<rparr>) tbl
             @ post
         \<and> m_outputs (nodes g n) \<noteq> []
         \<and> mn = Min (case_value ` set (m_outputs (nodes g n)))
         \<and> mx = Max (case_value ` set (m_outputs (nodes g n)))
         \<and> length tbl = nat (mx - mn + 1)
         \<and> (\<forall>j < length (m_outputs (nodes g n)).
               (\<forall>k. j < k \<and> k < length (m_outputs (nodes g n)) \<longrightarrow>
                    case_value (m_outputs (nodes g n) ! k) \<noteq> case_value (m_outputs (nodes g n) ! j)) \<longrightarrow>
               (\<exists>t. node (m_outputs (nodes g n) ! j) = Some t
                  \<and> tbl ! nat (case_value (m_outputs (nodes g n) ! j) - mn) =
                      (if label (nodes g t) \<noteq> loc_none \<and> lclass (label (nodes g t)) \<noteq> LOC_MINOR_LABEL
                       then (label (nodes g t))\<lparr> loc_offset := loc_offset (label (nodes g t)) - 1 \<rparr>
                       else \<lparr> lclass = LOC_MINOR_LABEL, handle = 0, data = vid (nodes g' t),
                              loc_offset = - 1, loc_is = IS_DEREF \<rparr>)))
         \<and> (\<forall>i < length ord. vid (nodes g' (ord ! i)) = i)
         \<and> output_inst (nodes g' n) = (output_inst (nodes g n))
              \<lparr> arg := (arg (output_inst (nodes g n)))\<lparr> loc_offset := loc_offset (arg (output_inst (nodes g n))) - mn \<rparr>,
                alt := (alt (output_inst (nodes g n)))\<lparr> loc_offset := loc_offset (alt (output_inst (nodes g n))) - mn \<rparr> \<rparr>
         \<and> (op (output_inst (nodes g n)) \<noteq> BAD_OP \<longrightarrow> output_inst (nodes g' n) \<in> set main)"
proof -
  from to_linear_switch_blocks[OF assms] obtain main pre post tbl mn mx where
    r: "main_code Ops g' None ord = Inr main"
       "linear = main @ pre @ table_block (cfg_node (arg (output_inst (nodes g n)))) tbl @ post"
       "m_outputs (nodes g n) \<noteq> []"
       "mn = Min (case_value ` set (m_outputs (nodes g n)))"
       "mx = Max (case_value ` set (m_outputs (nodes g n)))"
       "length tbl = nat (mx - mn + 1)"
       "table_entries_ok g' (m_outputs (nodes g n)) mn tbl"
       "output_inst (nodes g' n) = advance_terminator mn (output_inst (nodes g n))"
       "op (output_inst (nodes g n)) \<noteq> BAD_OP \<longrightarrow>
              advance_terminator mn (output_inst (nodes g n)) \<in> set main"
    by blast
  let ?g1 = "assign_vids 0 ord g"
  from assms(1) obtain tc where st: "switch_tables Ops ord [] ?g1 = Inr (tc, g')"
    by (auto simp: to_linear_def Let_def split: sum.splits)
  from switch_tables_frame[OF st] have same: "same_but_terminator_args ?g1 g'" by simp
  have lab: "\<And>t. label (nodes g' t) = label (nodes g t)"
    using same by (simp add: same_but_terminator_args_def assign_vids_frame)
  have vids: "\<forall>i < length ord. vid (nodes g' (ord ! i)) = i"
    using same assign_vids_vid[OF assms(2), of _ 0 g] by (simp add: same_but_terminator_args_def)
  have lin: "linear = main @ pre
             @ \<lparr> op = ASM_LABEL, arg = switch_lo_table (cfg_node (arg (output_inst (nodes g n)))), alt = loc_none \<rparr>
             # map (\<lambda>l. \<lparr> op = ASM_DATA, arg = l\<lparr> loc_is := IS_PTR \<rparr>, alt = loc_none \<rparr>) tbl
             @ \<lparr> op = ASM_LABEL, arg = switch_hi_table (cfg_node (arg (output_inst (nodes g n)))), alt = loc_none \<rparr>
             # map (\<lambda>l. \<lparr> op = ASM_DATA, arg = l\<lparr> loc_is := IS_PTR_HI \<rparr>, alt = loc_none \<rparr>) tbl
             @ post"
    using r(2) by (simp add: table_block_def inst_arg_def with_is_def)
  have entry: "\<And>t. with_advance_offset (-1) (get_label (nodes g' t)) =
      (if label (nodes g t) \<noteq> loc_none \<and> lclass (label (nodes g t)) \<noteq> LOC_MINOR_LABEL
       then (label (nodes g t))\<lparr> loc_offset := loc_offset (label (nodes g t)) - 1 \<rparr>
       else \<lparr> lclass = LOC_MINOR_LABEL, handle = 0, data = vid (nodes g' t),
              loc_offset = - 1, loc_is = IS_DEREF \<rparr>)"
    by (simp add: get_label_def loc_bool_def with_advance_offset_def minor_label_def lab)
  have ent: "\<forall>j < length (m_outputs (nodes g n)).
               (\<forall>k. j < k \<and> k < length (m_outputs (nodes g n)) \<longrightarrow>
                    case_value (m_outputs (nodes g n) ! k) \<noteq> case_value (m_outputs (nodes g n) ! j)) \<longrightarrow>
               (\<exists>t. node (m_outputs (nodes g n) ! j) = Some t
                  \<and> tbl ! nat (case_value (m_outputs (nodes g n) ! j) - mn) =
                      (if label (nodes g t) \<noteq> loc_none \<and> lclass (label (nodes g t)) \<noteq> LOC_MINOR_LABEL
                       then (label (nodes g t))\<lparr> loc_offset := loc_offset (label (nodes g t)) - 1 \<rparr>
                       else \<lparr> lclass = LOC_MINOR_LABEL, handle = 0, data = vid (nodes g' t),
                              loc_offset = - 1, loc_is = IS_DEREF \<rparr>))"
    using r(7) unfolding table_entries_ok_def entry by simp
  have term1: "output_inst (nodes g' n) = (output_inst (nodes g n))
              \<lparr> arg := (arg (output_inst (nodes g n)))\<lparr> loc_offset := loc_offset (arg (output_inst (nodes g n))) - mn \<rparr>,
                alt := (alt (output_inst (nodes g n)))\<lparr> loc_offset := loc_offset (alt (output_inst (nodes g n))) - mn \<rparr> \<rparr>"
    using r(8) by (simp add: advance_terminator_def with_advance_offset_def)
  have term2: "op (output_inst (nodes g n)) \<noteq> BAD_OP \<longrightarrow> output_inst (nodes g' n) \<in> set main"
    using r(8,9) by simp
  from r(1,3,4,5,6) lin ent vids term1 term2 show ?thesis
    by (intro exI[of _ main] exI[of _ pre] exI[of _ post] exI[of _ tbl] exI[of _ mn] exI[of _ mx] conjI)
qed

theorem to_linear_switch_tables_witness:
  "distinct [0, 1, 2 :: nat] \<and> (0 :: nat) \<in> set [0, 1, 2] \<and> is_switch ops0 (nodes graph_switch 0)
   \<and> m_outputs (nodes graph_switch 0) = [\<lparr> node = Some 1, case_value = 3 \<rparr>, \<lparr> node = Some 2, case_value = 5 \<rparr>]
   \<and> (\<exists>linear g'. to_linear ops0 [0, 1, 2] graph_switch = Inr (linear, g')
        \<and> (\<exists>main pre post tbl.
              linear = main @ pre
                @ \<lparr> op = ASM_LABEL, arg = switch_lo_table 7, alt = loc_none \<rparr>
                # map (\<lambda>l. \<lparr> op = ASM_DATA, arg = l\<lparr> loc_is := IS_PTR \<rparr>, alt = loc_none \<rparr>) tbl
                @ \<lparr> op = ASM_LABEL, arg = switch_hi_table 7, alt = loc_none \<rparr>
                # map (\<lambda>l. \<lparr> op = ASM_DATA, arg = l\<lparr> loc_is := IS_PTR_HI \<rparr>, alt = loc_none \<rparr>) tbl
                @ post
            \<and> length tbl = 3
            \<and> tbl ! 0 = \<lparr> lclass = LOC_MINOR_LABEL, handle = 0, data = 1, loc_offset = - 1, loc_is = IS_DEREF \<rparr>
            \<and> tbl ! 2 = \<lparr> lclass = LOC_MINOR_LABEL, handle = 0, data = 2, loc_offset = - 1, loc_is = IS_DEREF \<rparr>
            \<and> output_inst (nodes g' 0) =
                 \<lparr> op = OP 9,
                   arg = \<lparr> lclass = LOC_CFG_LABEL, handle = 7, data = 0, loc_offset = - 3, loc_is = IS_DEREF \<rparr>,
                   alt = \<lparr> lclass = LOC_NONE, handle = 0, data = 0, loc_offset = - 3, loc_is = IS_DEREF \<rparr> \<rparr>))"
proof -
  have d: "distinct [0, 1, 2 :: nat]" by simp
  have m: "(0 :: nat) \<in> set [0, 1, 2]" by simp
  have s: "is_switch ops0 (nodes graph_switch 0)"
    by (simp add: is_switch_def ops0_def graph_switch_def inst_arg_def)
  from to_linear_graph_switch obtain linear g' where
    l: "to_linear ops0 [0, 1, 2] graph_switch = Inr (linear, g')"
    by (cases "to_linear ops0 [0, 1, 2] graph_switch") auto
  have outs: "m_outputs (nodes graph_switch 0) = [\<lparr> node = Some 1, case_value = 3 \<rparr>, \<lparr> node = Some 2, case_value = 5 \<rparr>]"
    and oi: "output_inst (nodes graph_switch 0) = inst_arg (OP 9) (cfg_label 7)"
    and lab: "label (nodes graph_switch (Suc 0)) = loc_none" "label (nodes graph_switch 2) = loc_none"
    by (simp_all add: graph_switch_def asm_node_init_def)
  have c: "cfg_node (arg (inst_arg (OP 9) (cfg_label 7))) = 7"
    by (simp add: cfg_node_def inst_arg_def cfg_label_def)
  from to_linear_switch_tables [OF l d m s]
  obtain main pre post tbl mn mx where
    lin0: "linear = main @ pre
             @ \<lparr> op = ASM_LABEL, arg = switch_lo_table (cfg_node (arg (output_inst (nodes graph_switch 0)))), alt = loc_none \<rparr>
             # map (\<lambda>l. \<lparr> op = ASM_DATA, arg = l\<lparr> loc_is := IS_PTR \<rparr>, alt = loc_none \<rparr>) tbl
             @ \<lparr> op = ASM_LABEL, arg = switch_hi_table (cfg_node (arg (output_inst (nodes graph_switch 0)))), alt = loc_none \<rparr>
             # map (\<lambda>l. \<lparr> op = ASM_DATA, arg = l\<lparr> loc_is := IS_PTR_HI \<rparr>, alt = loc_none \<rparr>) tbl
             @ post"
    and mn0: "mn = Min (case_value ` set (m_outputs (nodes graph_switch 0)))"
    and mx0: "mx = Max (case_value ` set (m_outputs (nodes graph_switch 0)))"
    and len0: "length tbl = nat (mx - mn + 1)"
    and ent0: "\<forall>j < length (m_outputs (nodes graph_switch 0)).
               (\<forall>k. j < k \<and> k < length (m_outputs (nodes graph_switch 0)) \<longrightarrow>
                    case_value (m_outputs (nodes graph_switch 0) ! k) \<noteq> case_value (m_outputs (nodes graph_switch 0) ! j)) \<longrightarrow>
               (\<exists>t. node (m_outputs (nodes graph_switch 0) ! j) = Some t
                  \<and> tbl ! nat (case_value (m_outputs (nodes graph_switch 0) ! j) - mn) =
                      (if label (nodes graph_switch t) \<noteq> loc_none \<and> lclass (label (nodes graph_switch t)) \<noteq> LOC_MINOR_LABEL
                       then (label (nodes graph_switch t))\<lparr> loc_offset := loc_offset (label (nodes graph_switch t)) - 1 \<rparr>
                       else \<lparr> lclass = LOC_MINOR_LABEL, handle = 0, data = vid (nodes g' t),
                              loc_offset = - 1, loc_is = IS_DEREF \<rparr>))"
    and vids: "\<forall>i < length [0, 1, 2 :: nat]. vid (nodes g' ([0, 1, 2] ! i)) = i"
    and tm: "output_inst (nodes g' 0) = (output_inst (nodes graph_switch 0))
              \<lparr> arg := (arg (output_inst (nodes graph_switch 0)))\<lparr> loc_offset := loc_offset (arg (output_inst (nodes graph_switch 0))) - mn \<rparr>,
                alt := (alt (output_inst (nodes graph_switch 0)))\<lparr> loc_offset := loc_offset (alt (output_inst (nodes graph_switch 0))) - mn \<rparr> \<rparr>"
    by blast
  from mn0 mx0 have mn: "mn = 3" and mx: "mx = 5" by (simp_all add: outs)
  from lin0 have lin: "linear = main @ pre
                @ \<lparr> op = ASM_LABEL, arg = switch_lo_table 7, alt = loc_none \<rparr>
                # map (\<lambda>l. \<lparr> op = ASM_DATA, arg = l\<lparr> loc_is := IS_PTR \<rparr>, alt = loc_none \<rparr>) tbl
                @ \<lparr> op = ASM_LABEL, arg = switch_hi_table 7, alt = loc_none \<rparr>
                # map (\<lambda>l. \<lparr> op = ASM_DATA, arg = l\<lparr> loc_is := IS_PTR_HI \<rparr>, alt = loc_none \<rparr>) tbl
                @ post"
    unfolding oi c .
  from len0 have len: "length tbl = 3" by (simp add: mn mx)
  from vids[rule_format, of 1] vids[rule_format, of 2]
  have v1: "vid (nodes g' (Suc 0)) = 1" and v2: "vid (nodes g' 2) = 2"
    by simp_all
  from ent0[rule_format, of 0] have t0: "tbl ! 0 = \<lparr> lclass = LOC_MINOR_LABEL, handle = 0, data = 1, loc_offset = - 1, loc_is = IS_DEREF \<rparr>"
    by (simp add: outs mn lab v1 less_2_cases_iff)
  from ent0[THEN spec, of 1] have t2: "tbl ! 2 = \<lparr> lclass = LOC_MINOR_LABEL, handle = 0, data = 2, loc_offset = - 1, loc_is = IS_DEREF \<rparr>"
    by (auto simp: outs mn lab v2 less_Suc_eq)
  from tm[unfolded oi mn] have tm': "output_inst (nodes g' 0) =
                 \<lparr> op = OP 9,
                   arg = \<lparr> lclass = LOC_CFG_LABEL, handle = 7, data = 0, loc_offset = - 3, loc_is = IS_DEREF \<rparr>,
                   alt = \<lparr> lclass = LOC_NONE, handle = 0, data = 0, loc_offset = - 3, loc_is = IS_DEREF \<rparr> \<rparr>"
    by (simp add: inst_arg_def cfg_label_def loc_none_def)
  from lin len t0 t2 tm' l d m s outs show ?thesis by blast
qed
section \<open>Removing the nodes without effect\<close>

lemma same_graph_refl: "same_graph ir ir"
  by (simp add: same_graph_def)

lemma same_graph_trans: "same_graph a b \<Longrightarrow> same_graph b c \<Longrightarrow> same_graph a c"
  by (simp add: same_graph_def)

lemma same_graph_all_ssa: "same_graph ir ir' \<Longrightarrow> all_ssa ir' = all_ssa ir"
  by (simp add: same_graph_def all_ssa_def)

lemma same_graph_node_inputs: "same_graph ir ir' \<Longrightarrow> node_inputs ir' h = node_inputs ir h"
  by (simp add: same_graph_def node_inputs_def)

lemma same_graph_upd_flags:
  "(\<And>nd. ssa_op (f nd) = ssa_op nd \<and> ssa_inputs (f nd) = ssa_inputs nd) \<Longrightarrow>
   same_graph ir (upd_ssa h f ir)"
  by (simp add: same_graph_def upd_ssa_def)

lemma clear_fold:
  "same_graph ir (fold (\<lambda>h. upd_ssa h (\<lambda>nd. nd\<lparr> flag_in_worklist := False \<rparr>)) wl ir)
   \<and> (\<forall>h. flag_in_worklist (ssa_nodes (fold (\<lambda>h. upd_ssa h (\<lambda>nd. nd\<lparr> flag_in_worklist := False \<rparr>)) wl ir) h)
          = (flag_in_worklist (ssa_nodes ir h) \<and> h \<notin> set wl))"
proof (induction wl arbitrary: ir)
  case Nil
  then show ?case by (simp add: same_graph_refl)
next
  case (Cons a wl)
  let ?ir1 = "upd_ssa a (\<lambda>nd. nd\<lparr> flag_in_worklist := False \<rparr>) ir"
  have "same_graph ir ?ir1" by (rule same_graph_upd_flags) simp
  with Cons[of ?ir1] show ?case
    by (auto simp: upd_ssa_def intro: same_graph_trans)
qed

lemma mark_all_pruned_ok:
  "\<forall>h \<in> set hs. \<not> flag_in_worklist (ssa_nodes ir h) \<Longrightarrow>
   \<exists>ir1. mark_all_pruned hs ir = Inr ir1 \<and> same_graph ir ir1
     \<and> (\<forall>h. flag_in_worklist (ssa_nodes ir1 h) = flag_in_worklist (ssa_nodes ir h))
     \<and> (\<forall>h. flag_pruned (ssa_nodes ir1 h) = (flag_pruned (ssa_nodes ir h) \<or> h \<in> set hs))"
proof (induction hs arbitrary: ir)
  case Nil
  then show ?case by (simp add: same_graph_refl)
next
  case (Cons a hs)
  let ?ir1 = "upd_ssa a (\<lambda>nd. nd\<lparr> flag_pruned := True \<rparr>) ir"
  have sg: "same_graph ir ?ir1" by (rule same_graph_upd_flags) simp
  have "\<forall>h \<in> set hs. \<not> flag_in_worklist (ssa_nodes ?ir1 h)"
    using Cons.prems by (simp add: upd_ssa_def)
  from Cons.IH[OF this] obtain ir1 where
    "mark_all_pruned hs ?ir1 = Inr ir1" "same_graph ?ir1 ir1"
    "\<forall>h. flag_in_worklist (ssa_nodes ir1 h) = flag_in_worklist (ssa_nodes ?ir1 h)"
    "\<forall>h. flag_pruned (ssa_nodes ir1 h) = (flag_pruned (ssa_nodes ?ir1 h) \<or> h \<in> set hs)"
    by blast
  with sg Cons.prems show ?case
    by (auto simp: upd_ssa_def intro: same_graph_trans)
qed

lemma set_input_refs: "set (input_refs vs) = {h. Ssa_ref h \<in> set vs}"
  by (induction vs rule: input_refs.induct) auto

lemma depends_on_iff:
  "((u, v) \<in> depends_on ir) = (u \<in> set (all_ssa ir) \<and> v \<in> set (node_inputs ir u))"
  by (simp add: depends_on_def node_inputs_def set_input_refs)

lemma root_of_same: "same_graph ir ir' \<Longrightarrow> root_of D ir' h = root_of D ir h"
  by (simp add: same_graph_def root_of_def)

lemma seed_fold:
  assumes "distinct xs"
    and "\<forall>h \<in> set xs. \<not> flag_in_worklist (ssa_nodes ir h)"
  shows "\<exists>ir'. fold (seed_root D) xs (ir, wl) = (ir', wl @ filter (root_of D ir) xs)
     \<and> same_graph ir ir'
     \<and> (\<forall>h. flag_pruned (ssa_nodes ir' h) = (flag_pruned (ssa_nodes ir h) \<and> \<not> (h \<in> set xs \<and> root_of D ir h)))
     \<and> (\<forall>h. flag_in_worklist (ssa_nodes ir' h) = (flag_in_worklist (ssa_nodes ir h) \<or> (h \<in> set xs \<and> root_of D ir h)))"
  using assms
proof (induction xs arbitrary: ir wl)
  case Nil
  then show ?case by (simp add: same_graph_refl)
next
  case (Cons a xs)
  obtain ir1 wl1 where s1: "seed_root D a (ir, wl) = (ir1, wl1)" by (cases "seed_root D a (ir, wl)")
  have f1: "same_graph ir ir1"
    "wl1 = wl @ filter (root_of D ir) [a]"
    "\<forall>h. flag_pruned (ssa_nodes ir1 h) = (flag_pruned (ssa_nodes ir h) \<and> \<not> (h = a \<and> root_of D ir h))"
    "\<forall>h. flag_in_worklist (ssa_nodes ir1 h) = (flag_in_worklist (ssa_nodes ir h) \<or> (h = a \<and> root_of D ir h))"
    using s1 Cons.prems(2)
    by (auto simp: seed_root_def worklist_push_def upd_ssa_def same_graph_def root_of_def
        is_effect_root_def split: if_splits)
  have pre: "distinct xs" "\<forall>h \<in> set xs. \<not> flag_in_worklist (ssa_nodes ir1 h)"
    using Cons.prems f1(4) by auto
  from Cons.IH[OF pre, of wl1] obtain ir' where
    r: "fold (seed_root D) xs (ir1, wl1) = (ir', wl1 @ filter (root_of D ir1) xs)"
      "same_graph ir1 ir'"
      "\<forall>h. flag_pruned (ssa_nodes ir' h) = (flag_pruned (ssa_nodes ir1 h) \<and> \<not> (h \<in> set xs \<and> root_of D ir1 h))"
      "\<forall>h. flag_in_worklist (ssa_nodes ir' h) = (flag_in_worklist (ssa_nodes ir1 h) \<or> (h \<in> set xs \<and> root_of D ir1 h))"
    by blast
  have rs: "root_of D ir1 = root_of D ir" using root_of_same[OF f1(1)] by (simp add: fun_eq_iff)
  show ?case
    using s1 r f1 same_graph_trans[OF f1(1) r(2)]
    by (intro exI[of _ ir']) (auto simp: rs)
qed

lemma revive_fold:
  assumes "\<forall>h \<in> set xs. flag_pruned (ssa_nodes ir h) \<longrightarrow> \<not> flag_in_worklist (ssa_nodes ir h)"
  shows "\<exists>ir' wl'. fold revive_input xs (ir, wl) = (ir', wl')
     \<and> same_graph ir ir'
     \<and> (\<forall>h. flag_pruned (ssa_nodes ir' h) = (flag_pruned (ssa_nodes ir h) \<and> h \<notin> set xs))
     \<and> (\<forall>h. flag_in_worklist (ssa_nodes ir' h)
            = (flag_in_worklist (ssa_nodes ir h) \<or> (h \<in> set xs \<and> flag_pruned (ssa_nodes ir h))))
     \<and> set wl' = set wl \<union> {h \<in> set xs. flag_pruned (ssa_nodes ir h)}
     \<and> length wl' = length wl + card {h \<in> set xs. flag_pruned (ssa_nodes ir h)}
     \<and> (distinct wl \<and> (\<forall>h \<in> set wl. \<not> flag_pruned (ssa_nodes ir h)) \<longrightarrow> distinct wl')"
  using assms
proof (induction xs arbitrary: ir wl)
  case Nil
  then show ?case by (simp add: same_graph_refl)
next
  case (Cons a xs)
  show ?case
  proof (cases "flag_pruned (ssa_nodes ir a)")
    case False
    then have s1: "revive_input a (ir, wl) = (ir, wl)" by (simp add: revive_input_def)
    from Cons.prems have "\<forall>h \<in> set xs. flag_pruned (ssa_nodes ir h) \<longrightarrow> \<not> flag_in_worklist (ssa_nodes ir h)"
      by simp
    from Cons.IH[OF this, of wl] obtain ir' wl' where
      r: "fold revive_input xs (ir, wl) = (ir', wl')" "same_graph ir ir'"
        "\<forall>h. flag_pruned (ssa_nodes ir' h) = (flag_pruned (ssa_nodes ir h) \<and> h \<notin> set xs)"
        "\<forall>h. flag_in_worklist (ssa_nodes ir' h)
            = (flag_in_worklist (ssa_nodes ir h) \<or> (h \<in> set xs \<and> flag_pruned (ssa_nodes ir h)))"
        "set wl' = set wl \<union> {h \<in> set xs. flag_pruned (ssa_nodes ir h)}"
        "length wl' = length wl + card {h \<in> set xs. flag_pruned (ssa_nodes ir h)}"
        "distinct wl \<and> (\<forall>h \<in> set wl. \<not> flag_pruned (ssa_nodes ir h)) \<longrightarrow> distinct wl'"
      by blast
    have eq: "{h \<in> set (a # xs). flag_pruned (ssa_nodes ir h)} = {h \<in> set xs. flag_pruned (ssa_nodes ir h)}"
      using False by auto
    show ?thesis
      using r False s1 unfolding eq
      by (intro exI[of _ ir'] exI[of _ wl']) auto
  next
    case True
    with Cons.prems have niw: "\<not> flag_in_worklist (ssa_nodes ir a)" by simp
    let ?ir1 = "upd_ssa a (\<lambda>nd. nd\<lparr> flag_in_worklist := True \<rparr>) (upd_ssa a (\<lambda>nd. nd\<lparr> flag_pruned := False \<rparr>) ir)"
    have s1: "revive_input a (ir, wl) = (?ir1, wl @ [a])"
      using True niw by (simp add: revive_input_def worklist_push_def upd_ssa_def)
    have sg: "same_graph ir ?ir1" by (simp add: same_graph_def upd_ssa_def)
    have p1: "\<And>h. flag_pruned (ssa_nodes ?ir1 h) = (flag_pruned (ssa_nodes ir h) \<and> h \<noteq> a)"
      and i1: "\<And>h. flag_in_worklist (ssa_nodes ?ir1 h) = (flag_in_worklist (ssa_nodes ir h) \<or> h = a)"
      by (auto simp: upd_ssa_def)
    have "\<forall>h \<in> set xs. flag_pruned (ssa_nodes ?ir1 h) \<longrightarrow> \<not> flag_in_worklist (ssa_nodes ?ir1 h)"
      using Cons.prems by (auto simp: p1 i1)
    from Cons.IH[OF this, of "wl @ [a]"] obtain ir' wl' where
      r: "fold revive_input xs (?ir1, wl @ [a]) = (ir', wl')" "same_graph ?ir1 ir'"
        "\<forall>h. flag_pruned (ssa_nodes ir' h) = (flag_pruned (ssa_nodes ?ir1 h) \<and> h \<notin> set xs)"
        "\<forall>h. flag_in_worklist (ssa_nodes ir' h)
            = (flag_in_worklist (ssa_nodes ?ir1 h) \<or> (h \<in> set xs \<and> flag_pruned (ssa_nodes ?ir1 h)))"
        "set wl' = set (wl @ [a]) \<union> {h \<in> set xs. flag_pruned (ssa_nodes ?ir1 h)}"
        "length wl' = length (wl @ [a]) + card {h \<in> set xs. flag_pruned (ssa_nodes ?ir1 h)}"
        "distinct (wl @ [a]) \<and> (\<forall>h \<in> set (wl @ [a]). \<not> flag_pruned (ssa_nodes ?ir1 h)) \<longrightarrow> distinct wl'"
      by blast
    have seteq: "{h \<in> set (a # xs). flag_pruned (ssa_nodes ir h)}
        = insert a {h \<in> set xs. flag_pruned (ssa_nodes ?ir1 h)}"
      using True by (auto simp: p1)
    have "a \<notin> {h \<in> set xs. flag_pruned (ssa_nodes ?ir1 h)}" by (simp add: p1)
    then have cardeq: "card {h \<in> set (a # xs). flag_pruned (ssa_nodes ir h)}
        = Suc (card {h \<in> set xs. flag_pruned (ssa_nodes ?ir1 h)})"
      unfolding seteq by (subst card_insert_disjoint) auto
    have c1: "fold revive_input (a # xs) (ir, wl) = (ir', wl')" using s1 r(1) by simp
    have c2: "same_graph ir ir'" using sg r(2) by (rule same_graph_trans)
    have c3: "\<forall>h. flag_pruned (ssa_nodes ir' h) = (flag_pruned (ssa_nodes ir h) \<and> h \<notin> set (a # xs))"
      using r(3) by (auto simp: p1)
    have c4: "\<forall>h. flag_in_worklist (ssa_nodes ir' h)
            = (flag_in_worklist (ssa_nodes ir h) \<or> (h \<in> set (a # xs) \<and> flag_pruned (ssa_nodes ir h)))"
      using r(4) True by (auto simp: p1 i1)
    have c5: "set wl' = set wl \<union> {h \<in> set (a # xs). flag_pruned (ssa_nodes ir h)}"
      using r(5) unfolding seteq by auto
    have c6: "length wl' = length wl + card {h \<in> set (a # xs). flag_pruned (ssa_nodes ir h)}"
      using r(6) unfolding cardeq by simp
    have c7: "distinct wl \<and> (\<forall>h \<in> set wl. \<not> flag_pruned (ssa_nodes ir h)) \<longrightarrow> distinct wl'"
      using r(7) True by (auto simp: p1)
    from c1 c2 c3 c4 c5 c6 c7 show ?thesis by blast
  qed
qed

lemma worklist_measure_less:
  fixes l l' n p :: nat
  shows "n \<le> p \<Longrightarrow> 1 \<le> l \<Longrightarrow> l' = l - 1 + n \<Longrightarrow> l' + 2 * (p - n) < l + 2 * p"
  by arith

lemma set_butlast_distinct:
  "xs \<noteq> [] \<Longrightarrow> distinct xs \<Longrightarrow> set (butlast xs) = set xs - {last xs}"
  by (induction xs rule: rev_induct) auto

lemma effect_reachable_step:
  assumes "effect_reachable D ir h" and "h \<in> set (all_ssa ir)" and "i \<in> set (node_inputs ir h)"
  shows "effect_reachable D ir i"
proof -
  from assms(1) obtain r where r: "r \<in> set (all_ssa ir)" "is_effect_root D (ssa_op (ssa_nodes ir r))"
    and rh: "(r, h) \<in> (depends_on ir)\<^sup>*"
    unfolding effect_reachable_def by blast
  from assms(2,3) have "(h, i) \<in> depends_on ir" by (simp add: depends_on_iff)
  with rh have "(r, i) \<in> (depends_on ir)\<^sup>*" by (rule rtrancl_into_rtrancl)
  with r show ?thesis unfolding effect_reachable_def by blast
qed

lemma drain_step_inv:
  assumes inv: "live_inv D ir0 s" and ne: "snd s \<noteq> []" and cl: "inputs_closed ir0"
  shows "live_inv D ir0 (drain_step s) \<and> pruned_count ir0 (drain_step s) < pruned_count ir0 s"
proof -
  obtain ir wl where s: "s = (ir, wl)" by (cases s)
  from ne s have wl: "wl \<noteq> []" by simp
  let ?h = "last wl"
  let ?ir1 = "upd_ssa ?h (\<lambda>nd. nd\<lparr> flag_in_worklist := False \<rparr>) ir"
  let ?xs = "node_inputs ir0 ?h"
  from inv s have sg: "same_graph ir0 ir" and sub: "set wl \<subseteq> set (all_ssa ir0)" and dw: "distinct wl"
    and fl: "\<forall>h \<in> set (all_ssa ir0). flag_in_worklist (ssa_nodes ir h) = (h \<in> set wl)"
    and wlive: "\<forall>h \<in> set wl. \<not> flag_pruned (ssa_nodes ir h)"
    and rlive: "\<forall>h \<in> set (all_ssa ir0). root_of D ir0 h \<longrightarrow> \<not> flag_pruned (ssa_nodes ir h)"
    and reach: "\<forall>h \<in> set (all_ssa ir0). \<not> flag_pruned (ssa_nodes ir h) \<longrightarrow> effect_reachable D ir0 h"
    and closed: "\<forall>h \<in> set (all_ssa ir0). \<not> flag_pruned (ssa_nodes ir h) \<and> h \<notin> set wl \<longrightarrow>
            (\<forall>i \<in> set (node_inputs ir0 h). \<not> flag_pruned (ssa_nodes ir i))"
    by (auto simp: live_inv_def)
  have hH: "?h \<in> set (all_ssa ir0)" using wl sub by auto
  have hlive: "\<not> flag_pruned (ssa_nodes ir ?h)" using wl wlive by auto
  have xsH: "set ?xs \<subseteq> set (all_ssa ir0)" using cl hH by (auto simp: inputs_closed_def)
  have sg1: "same_graph ir ?ir1" by (simp add: same_graph_def upd_ssa_def)
  have ni: "node_inputs ?ir1 ?h = ?xs"
    using same_graph_node_inputs[OF same_graph_trans[OF sg sg1]] by simp
  have ds: "drain_step s = fold revive_input ?xs (?ir1, butlast wl)"
    by (simp add: drain_step_def worklist_pop_def s ni)
  have p1: "\<And>k. flag_pruned (ssa_nodes ?ir1 k) = flag_pruned (ssa_nodes ir k)"
    and i1: "\<And>k. flag_in_worklist (ssa_nodes ?ir1 k) = (flag_in_worklist (ssa_nodes ir k) \<and> k \<noteq> ?h)"
    by (auto simp: upd_ssa_def)
  have pre: "\<forall>k \<in> set ?xs. flag_pruned (ssa_nodes ?ir1 k) \<longrightarrow> \<not> flag_in_worklist (ssa_nodes ?ir1 k)"
    using xsH fl wlive by (auto simp: p1 i1)
  from revive_fold[OF pre, of "butlast wl"] obtain ir' wl' where
    r: "fold revive_input ?xs (?ir1, butlast wl) = (ir', wl')" "same_graph ?ir1 ir'"
      "\<forall>k. flag_pruned (ssa_nodes ir' k) = (flag_pruned (ssa_nodes ir k) \<and> k \<notin> set ?xs)"
      "\<forall>k. flag_in_worklist (ssa_nodes ir' k)
            = ((flag_in_worklist (ssa_nodes ir k) \<and> k \<noteq> ?h) \<or> (k \<in> set ?xs \<and> flag_pruned (ssa_nodes ir k)))"
      "set wl' = set (butlast wl) \<union> {k \<in> set ?xs. flag_pruned (ssa_nodes ir k)}"
      "length wl' = length (butlast wl) + card {k \<in> set ?xs. flag_pruned (ssa_nodes ir k)}"
      "distinct (butlast wl) \<and> (\<forall>k \<in> set (butlast wl). \<not> flag_pruned (ssa_nodes ir k)) \<longrightarrow> distinct wl'"
    unfolding p1 i1 by blast
  have bl: "set (butlast wl) = set wl - {?h}"
    using wl dw by (rule set_butlast_distinct)
  have dbl: "distinct (butlast wl)" using dw by (simp add: distinct_butlast)
  have blive: "\<forall>k \<in> set (butlast wl). \<not> flag_pruned (ssa_nodes ir k)"
    using wlive bl by auto
  have a1: "same_graph ir0 ir'" using sg sg1 r(2) by (blast intro: same_graph_trans)
  have a2: "set wl' \<subseteq> set (all_ssa ir0)" using r(5) bl sub xsH by auto
  have a3: "distinct wl'" using r(7) dbl blive by simp
  have a4: "\<forall>k \<in> set (all_ssa ir0). flag_in_worklist (ssa_nodes ir' k) = (k \<in> set wl')"
    using r(4) r(5) fl bl by auto
  have a5: "\<forall>k \<in> set wl'. \<not> flag_pruned (ssa_nodes ir' k)"
    using r(3) r(5) blive by auto
  have a6: "\<forall>k \<in> set (all_ssa ir0). root_of D ir0 k \<longrightarrow> \<not> flag_pruned (ssa_nodes ir' k)"
    using r(3) rlive by auto
  have a7: "\<forall>k \<in> set (all_ssa ir0). \<not> flag_pruned (ssa_nodes ir' k) \<longrightarrow> effect_reachable D ir0 k"
  proof (intro ballI impI)
    fix k assume k: "k \<in> set (all_ssa ir0)" "\<not> flag_pruned (ssa_nodes ir' k)"
    show "effect_reachable D ir0 k"
    proof (cases "flag_pruned (ssa_nodes ir k)")
      case False
      with reach k show ?thesis by simp
    next
      case True
      with k r(3) have "k \<in> set ?xs" by simp
      moreover have "effect_reachable D ir0 ?h" using reach hH hlive by simp
      ultimately show ?thesis using hH by (blast intro: effect_reachable_step)
    qed
  qed
  have a8: "\<forall>k \<in> set (all_ssa ir0). \<not> flag_pruned (ssa_nodes ir' k) \<and> k \<notin> set wl' \<longrightarrow>
            (\<forall>i \<in> set (node_inputs ir0 k). \<not> flag_pruned (ssa_nodes ir' i))"
  proof (intro ballI impI)
    fix k i assume k: "k \<in> set (all_ssa ir0)" "\<not> flag_pruned (ssa_nodes ir' k) \<and> k \<notin> set wl'"
      and i: "i \<in> set (node_inputs ir0 k)"
    show "\<not> flag_pruned (ssa_nodes ir' i)"
    proof (cases "k = ?h")
      case True
      with i r(3) show ?thesis by simp
    next
      case False
      from k r(5) have nk: "k \<notin> set (butlast wl)" "\<not> (k \<in> set ?xs \<and> flag_pruned (ssa_nodes ir k))" by auto
      with False bl have "k \<notin> set wl" by auto
      moreover from k r(3) nk have "\<not> flag_pruned (ssa_nodes ir k)" by auto
      ultimately have "\<not> flag_pruned (ssa_nodes ir i)" using closed k(1) i by blast
      with r(3) show ?thesis by simp
    qed
  qed
  have inv': "live_inv D ir0 (ir', wl')"
    unfolding live_inv_def using a1 a2 a3 a4 a5 a6 a7 a8 by simp
  let ?P = "{k \<in> set (all_ssa ir0). flag_pruned (ssa_nodes ir k)}"
  let ?N = "{k \<in> set ?xs. flag_pruned (ssa_nodes ir k)}"
  have NP: "?N \<subseteq> ?P" using xsH by auto
  have P': "{k \<in> set (all_ssa ir0). flag_pruned (ssa_nodes ir' k)} = ?P - ?N"
    using r(3) by auto
  have fin: "finite ?P" by simp
  have finN: "finite ?N" by simp
  have c1: "card (?P - ?N) = card ?P - card ?N"
    by (rule card_Diff_subset[OF finN NP])
  have c2: "card ?N \<le> card ?P"
    by (rule card_mono[OF fin NP])
  have c3: "length wl' = length wl - 1 + card ?N" using r(6) by simp
  have c4: "1 \<le> length wl" using wl by (cases wl) auto
  have "length wl' + 2 * card (?P - ?N) < length wl + 2 * card ?P"
    unfolding c1 using c2 c4 c3 by (rule worklist_measure_less)
  then have "pruned_count ir0 (ir', wl') < pruned_count ir0 (ir, wl)"
    unfolding pruned_count_def fst_conv snd_conv P' .
  with inv' ds r(1) s show ?thesis by simp
qed

lemma drain_terminates:
  assumes "live_inv D ir0 s" and "inputs_closed ir0"
  shows "\<exists>t. drain s = Some t \<and> live_inv D ir0 t \<and> snd t = []"
proof -
  have wf: "wf {(t, s). (live_inv D ir0 s \<and> snd s \<noteq> []) \<and> t = drain_step s}"
  proof (rule wf_subset[OF wf_measure[of "pruned_count ir0"]])
    show "{(t, s). (live_inv D ir0 s \<and> snd s \<noteq> []) \<and> t = drain_step s} \<subseteq> measure (pruned_count ir0)"
      using drain_step_inv[OF _ _ assms(2)] by auto
  qed
  have step: "\<And>s. live_inv D ir0 s \<Longrightarrow> snd s \<noteq> [] \<Longrightarrow> live_inv D ir0 (drain_step s)"
    using drain_step_inv[OF _ _ assms(2)] by blast
  from wf_while_option_Some[OF wf step assms(1)]
  obtain t where t: "while_option (\<lambda>s. snd s \<noteq> []) drain_step s = Some t" by blast
  from while_option_stop[OF t] have "snd t = []" by simp
  moreover from while_option_rule[where P = "live_inv D ir0", OF step t assms(1)]
  have "live_inv D ir0 t" .
  ultimately show ?thesis using t by (simp add: drain_def)
qed

lemma live_inv_exit:
  assumes "live_inv D ir0 (ir, [])" and "inputs_closed ir0" and "h \<in> set (all_ssa ir0)"
  shows "flag_pruned (ssa_nodes ir h) = (\<not> effect_reachable D ir0 h)"
proof -
  from assms(1) have rlive: "\<forall>h \<in> set (all_ssa ir0). root_of D ir0 h \<longrightarrow> \<not> flag_pruned (ssa_nodes ir h)"
    and reach: "\<forall>h \<in> set (all_ssa ir0). \<not> flag_pruned (ssa_nodes ir h) \<longrightarrow> effect_reachable D ir0 h"
    and closed: "\<forall>h \<in> set (all_ssa ir0). \<not> flag_pruned (ssa_nodes ir h) \<longrightarrow>
            (\<forall>i \<in> set (node_inputs ir0 h). \<not> flag_pruned (ssa_nodes ir i))"
    by (auto simp: live_inv_def)
  have "\<And>r k. (r, k) \<in> (depends_on ir0)\<^sup>* \<Longrightarrow> r \<in> set (all_ssa ir0) \<Longrightarrow> \<not> flag_pruned (ssa_nodes ir r) \<Longrightarrow>
      k \<in> set (all_ssa ir0) \<and> \<not> flag_pruned (ssa_nodes ir k)"
  proof -
    fix r k show "(r, k) \<in> (depends_on ir0)\<^sup>* \<Longrightarrow> r \<in> set (all_ssa ir0) \<Longrightarrow> \<not> flag_pruned (ssa_nodes ir r) \<Longrightarrow>
      k \<in> set (all_ssa ir0) \<and> \<not> flag_pruned (ssa_nodes ir k)"
    proof (induction rule: rtrancl_induct)
      case base
      then show ?case by simp
    next
      case (step y z)
      then have y: "y \<in> set (all_ssa ir0)" "\<not> flag_pruned (ssa_nodes ir y)" by auto
      from step(2) have z: "z \<in> set (node_inputs ir0 y)" by (simp add: depends_on_iff)
      with y closed assms(2) show ?case by (auto simp: inputs_closed_def)
    qed
  qed
  with rlive have "effect_reachable D ir0 h \<Longrightarrow> \<not> flag_pruned (ssa_nodes ir h)"
    unfolding effect_reachable_def root_of_def by blast
  with reach assms(3) show ?thesis by blast
qed

lemma prune_flags: "flag_pruned (ssa_nodes (prune h ir) k) = flag_pruned (ssa_nodes ir k)"
  by (simp add: prune_def)

lemma concat_removeAll: "concat (map (removeAll h) xss) = removeAll h (concat xss)"
  by (induction xss) simp_all

lemma prune_all_ssa: "all_ssa (prune h ir) = removeAll h (all_ssa ir)"
  by (simp add: prune_def all_ssa_def concat_removeAll)

lemma sweep_result:
  "set (all_ssa (fst (sweep hs ir changed)))
     = set (all_ssa ir) - {h \<in> set hs. flag_pruned (ssa_nodes ir h)}
   \<and> snd (sweep hs ir changed) = (changed \<or> (\<exists>h \<in> set hs. flag_pruned (ssa_nodes ir h)))"
proof (induction hs arbitrary: ir changed)
  case Nil
  then show ?case by simp
next
  case (Cons a hs)
  show ?case
  proof (cases "flag_pruned (ssa_nodes ir a)")
    case True
    with Cons[of "prune a ir" True] show ?thesis
      by (auto simp: prune_flags prune_all_ssa)
  next
    case False
    with Cons[of ir changed] show ?thesis by auto
  qed
qed

text \<open>
  Claim C2. On an IR that meets the container's invariants \<^verbatim>\<open>o_remove_no_effect\<close>
  returns, and a node of the IR has been removed exactly when no root of effect
  reaches it by reverse input edges, the roots being the nodes whose opcode is
  \<^verbatim>\<open>SSA_if\<close>, has \<^verbatim>\<open>WRITE_GLOBALS\<close>, has \<^verbatim>\<open>IMPURE\<close>, or has the input-0
  class \<^verbatim>\<open>LINK\<close> (\<open>is_effect_root\<close>); the result \<^verbatim>\<open>changed\<close> says whether
  a node was removed.
\<close>

theorem o_remove_no_effect_removes_unreachable:
  assumes "ir_ok (ir, wl)"
  shows "\<exists>ir' changed. o_remove_no_effect D (ir, wl) = Some (Inr (ir', changed))
     \<and> set (all_ssa ir') \<subseteq> set (all_ssa ir)
     \<and> (\<forall>h \<in> set (all_ssa ir). (h \<notin> set (all_ssa ir')) = (\<not> effect_reachable D ir h))
     \<and> changed = (\<exists>h \<in> set (all_ssa ir). \<not> effect_reachable D ir h)"
proof -
  from assms have dist: "distinct (all_ssa ir)"
    and refs: "\<forall>h \<in> set (all_ssa ir). \<forall>v \<in> set (ssa_inputs (ssa_nodes ir h)).
                 (case v of Ssa_ref i \<Rightarrow> i \<in> set (all_ssa ir) | _ \<Rightarrow> True)"
    and fl: "\<forall>h \<in> set (all_ssa ir). flag_in_worklist (ssa_nodes ir h) \<longrightarrow> h \<in> set wl"
    by (auto simp: ir_ok_def list_all_iff)
  have cl: "inputs_closed ir"
    unfolding inputs_closed_def node_inputs_def set_input_refs
  proof (intro ballI subsetI)
    fix h x assume h: "h \<in> set (all_ssa ir)" and "x \<in> {i. Ssa_ref i \<in> set (ssa_inputs (ssa_nodes ir h))}"
    then have "Ssa_ref x \<in> set (ssa_inputs (ssa_nodes ir h))" by simp
    with refs h have "(case Ssa_ref x of Ssa_ref i \<Rightarrow> i \<in> set (all_ssa ir) | _ \<Rightarrow> True)" by blast
    then show "x \<in> set (all_ssa ir)" by simp
  qed
  let ?ir0 = "fold (\<lambda>h. upd_ssa h (\<lambda>nd. nd\<lparr> flag_in_worklist := False \<rparr>)) wl ir"
  have wc: "worklist_clear (ir, wl) = (?ir0, [])" by (simp add: worklist_clear_def)
  from clear_fold[of ir wl] have sg0: "same_graph ir ?ir0"
    and iw0: "\<forall>h. flag_in_worklist (ssa_nodes ?ir0 h) = (flag_in_worklist (ssa_nodes ir h) \<and> h \<notin> set wl)"
    by auto
  have all0: "all_ssa ?ir0 = all_ssa ir" by (rule same_graph_all_ssa[OF sg0])
  have "\<forall>h \<in> set (all_ssa ?ir0). \<not> flag_in_worklist (ssa_nodes ?ir0 h)"
    using iw0 fl all0 by auto
  from mark_all_pruned_ok[OF this] obtain ir1 where
    m: "mark_all_pruned (all_ssa ?ir0) ?ir0 = Inr ir1" "same_graph ?ir0 ir1"
      "\<forall>h. flag_in_worklist (ssa_nodes ir1 h) = flag_in_worklist (ssa_nodes ?ir0 h)"
      "\<forall>h. flag_pruned (ssa_nodes ir1 h) = (flag_pruned (ssa_nodes ?ir0 h) \<or> h \<in> set (all_ssa ?ir0))"
    by blast
  have sg1: "same_graph ir ir1" using sg0 m(2) by (rule same_graph_trans)
  have all1: "all_ssa ir1 = all_ssa ir" by (rule same_graph_all_ssa[OF sg1])
  have niw1: "\<forall>h \<in> set (all_ssa ir1). \<not> flag_in_worklist (ssa_nodes ir1 h)"
    using m(3) iw0 fl all1 by auto
  have d1: "distinct (all_ssa ir1)" using dist all1 by simp
  from seed_fold[OF d1 niw1, of D "[]"] obtain ir2 where
    sd: "fold (seed_root D) (all_ssa ir1) (ir1, []) = (ir2, filter (root_of D ir1) (all_ssa ir1))"
      "same_graph ir1 ir2"
      "\<forall>h. flag_pruned (ssa_nodes ir2 h) = (flag_pruned (ssa_nodes ir1 h) \<and> \<not> (h \<in> set (all_ssa ir1) \<and> root_of D ir1 h))"
      "\<forall>h. flag_in_worklist (ssa_nodes ir2 h) = (flag_in_worklist (ssa_nodes ir1 h) \<or> (h \<in> set (all_ssa ir1) \<and> root_of D ir1 h))"
    by auto
  have sg2: "same_graph ir ir2" using sg1 sd(2) by (rule same_graph_trans)
  have r1: "root_of D ir1 = root_of D ir" using root_of_same[OF sg1] by (simp add: fun_eq_iff)
  let ?wl2 = "filter (root_of D ir) (all_ssa ir)"
  have p2: "\<forall>h \<in> set (all_ssa ir). flag_pruned (ssa_nodes ir2 h) = (\<not> root_of D ir h)"
    using sd(3) m(4) all0 all1 by (auto simp: r1)
  have i2: "\<forall>h \<in> set (all_ssa ir). flag_in_worklist (ssa_nodes ir2 h) = root_of D ir h"
    using sd(4) niw1 all1 by (auto simp: r1)
  have inv: "live_inv D ir (ir2, ?wl2)"
    unfolding live_inv_def using sg2 dist p2 i2
    by (auto simp: effect_reachable_def root_of_def)
  from drain_terminates[OF inv cl] obtain ir3 where
    dr: "drain (ir2, ?wl2) = Some (ir3, [])" and inv3: "live_inv D ir (ir3, [])"
    by (metis prod.collapse)
  from inv3 have sg3: "same_graph ir ir3" by (simp add: live_inv_def)
  have all3: "all_ssa ir3 = all_ssa ir" by (rule same_graph_all_ssa[OF sg3])
  have p3: "\<And>h. h \<in> set (all_ssa ir) \<Longrightarrow> flag_pruned (ssa_nodes ir3 h) = (\<not> effect_reachable D ir h)"
    by (rule live_inv_exit[OF inv3 cl])
  obtain ir' changed where sw: "sweep (all_ssa ir3) ir3 False = (ir', changed)"
    by (cases "sweep (all_ssa ir3) ir3 False")
  from sweep_result[of "all_ssa ir3" ir3 False] sw
  have res: "set (all_ssa ir') = set (all_ssa ir) - {h \<in> set (all_ssa ir). flag_pruned (ssa_nodes ir3 h)}"
    "changed = (\<exists>h \<in> set (all_ssa ir). flag_pruned (ssa_nodes ir3 h))"
    by (simp_all add: all3)
  have run: "o_remove_no_effect D (ir, wl) = Some (Inr (ir', changed))"
  proof -
    have s1: "mark_all_pruned (all_ssa ir) ?ir0 = Inr ir1" using m(1) by (simp only: all0)
    have s2: "fold (seed_root D) (all_ssa ir) (ir1, []) = (ir2, ?wl2)"
      using sd(1) by (simp only: all1 r1)
    have s3: "sweep (all_ssa ir) ir3 False = (ir', changed)" using sw by (simp only: all3)
    have "o_remove_no_effect D (ir, wl) =
        (case mark_all_pruned (all_ssa ?ir0) ?ir0 of
           Inl e \<Rightarrow> Some (Inl e)
         | Inr ir1 \<Rightarrow>
             (case drain (fold (seed_root D) (all_ssa ir1) (ir1, [])) of
                None \<Rightarrow> None
              | Some (ir2, wl2) \<Rightarrow> Some (Inr (sweep (all_ssa ir2) ir2 False))))"
      unfolding o_remove_no_effect_def wc by (simp only: prod.case)
    also have "\<dots> = (case drain (fold (seed_root D) (all_ssa ir1) (ir1, [])) of
                None \<Rightarrow> None
              | Some (ir2, wl2) \<Rightarrow> Some (Inr (sweep (all_ssa ir2) ir2 False)))"
      unfolding all0 s1 by (simp only: sum.case)
    also have "\<dots> = Some (Inr (sweep (all_ssa ir3) ir3 False))"
      unfolding all1 s2 dr by (simp only: option.case prod.case)
    also have "\<dots> = Some (Inr (ir', changed))"
      unfolding all3 s3 ..
    finally show ?thesis .
  qed
  show ?thesis
    using run res p3 by (intro exI[of _ ir'] exI[of _ changed]) auto
qed


lemma run_three_pure:
  "map_option (map_sum id (\<lambda>r. (all_ssa (fst r), snd r))) (o_remove_no_effect ssa_decls0 (ir_three_pure, []))
     = Some (Inr ([0, 1, 3], True))"
  by code_simp

theorem o_remove_no_effect_removes_unreachable_witness:
  "ir_ok (ir_three_pure, [])
   \<and> \<not> effect_reachable ssa_decls0 ir_three_pure 2
   \<and> effect_reachable ssa_decls0 ir_three_pure 0
   \<and> (\<exists>ir' changed. o_remove_no_effect ssa_decls0 (ir_three_pure, []) = Some (Inr (ir', changed))
         \<and> all_ssa ir' = [0, 1, 3] \<and> changed)"
proof -
  have ok: "ir_ok (ir_three_pure, [])" by code_simp
  have a: "all_ssa ir_three_pure = [0, 1, 2, 3]" by (simp add: all_ssa_def ir_three_pure_def)
  from o_remove_no_effect_removes_unreachable [OF ok, of ssa_decls0]
  obtain ir' changed where
    run: "o_remove_no_effect ssa_decls0 (ir_three_pure, []) = Some (Inr (ir', changed))"
    and iff: "\<forall>h \<in> set (all_ssa ir_three_pure). (h \<notin> set (all_ssa ir')) = (\<not> effect_reachable ssa_decls0 ir_three_pure h)"
    by blast
  from run_three_pure run have r: "all_ssa ir' = [0, 1, 3]" "changed" by simp_all
  from iff have "(2 \<notin> set (all_ssa ir')) = (\<not> effect_reachable ssa_decls0 ir_three_pure 2)"
    "(0 \<notin> set (all_ssa ir')) = (\<not> effect_reachable ssa_decls0 ir_three_pure 0)"
    unfolding a by simp_all
  with r have e: "\<not> effect_reachable ssa_decls0 ir_three_pure 2" "effect_reachable ssa_decls0 ir_three_pure 0"
    by simp_all
  from run r have "\<exists>ir' changed. o_remove_no_effect ssa_decls0 (ir_three_pure, []) = Some (Inr (ir', changed))
         \<and> all_ssa ir' = [0, 1, 3] \<and> changed"
    by blast
  with ok e show ?thesis by blast
qed

end
